theory Spec2Isabelle
  imports Main "HOL-Library.Monad_Syntax" "HOL-Library.Word"
begin

section \<open>Nodes and the heap\<close>

text \<open>
  The container of \<^verbatim>\<open>avl.h\<close> is a graph of heap-allocated \<^verbatim>\<open>node\<close> objects linked by raw
  pointers. A pointer is modelled as a natural number, \<open>0\<close> being \<^verbatim>\<open>nullptr\<close>; the heap maps
  the addresses of live objects to their contents and hands out fresh addresses in
  increasing order (the source assumes that allocation never fails).

  Every operation runs in the option monad. The result \<open>None\<close> stands for a call without
  a defined result: it dereferenced a null or dangling pointer, read a field that was
  never initialised, or its loop does not terminate.

  The field \<^verbatim>\<open>height\<close> is \<open>None\<close> while it is indeterminate: the copy constructor of
  \<^verbatim>\<open>node\<close> has no initialiser for it. Heights and the element counter are \<^verbatim>\<open>size_t\<close> in the
  source and natural numbers here; a tree has fewer nodes than the machine has addresses,
  so neither can wrap. The one place where the width of an integer type matters is
  \<^verbatim>\<open>is_balanced\<close>, which stores a difference of two \<^verbatim>\<open>size_t\<close> in an \<^verbatim>\<open>int\<close>.
\<close>

type_synonym ptr = nat

abbreviation (input) nullptr :: ptr where
  "nullptr \<equiv> 0"

record ('k, 'v) node =
  value' :: "'k \<times> 'v"
  parent :: ptr
  left :: ptr
  right :: ptr
  height :: "nat option"

record ('k, 'v) heap =
  cells :: "ptr \<Rightarrow> ('k, 'v) node option"
  fresh :: ptr

definition empty_heap :: "('k, 'v) heap" where
  "empty_heap = \<lparr>cells = (\<lambda>_. None), fresh = 1\<rparr>"

definition deref :: "('k, 'v) heap \<Rightarrow> ptr \<Rightarrow> ('k, 'v) node option" where
  "deref h p = (if p = nullptr then None else cells h p)"

definition store :: "('k, 'v) heap \<Rightarrow> ptr \<Rightarrow> ('k, 'v) node \<Rightarrow> ('k, 'v) heap" where
  "store h p n = h\<lparr>cells := (cells h)(p \<mapsto> n)\<rparr>"

definition free :: "('k, 'v) heap \<Rightarrow> ptr \<Rightarrow> ('k, 'v) heap" where
  "free h p = h\<lparr>cells := (cells h)(p := None)\<rparr>"

text \<open>Reading and writing one field through a pointer: \<^verbatim>\<open>p->left\<close>, \<^verbatim>\<open>p->left = q\<close>, ...\<close>

definition get_parent :: "('k, 'v) heap \<Rightarrow> ptr \<Rightarrow> ptr option" where
  "get_parent h p = map_option parent (deref h p)"

definition get_left :: "('k, 'v) heap \<Rightarrow> ptr \<Rightarrow> ptr option" where
  "get_left h p = map_option left (deref h p)"

definition get_right :: "('k, 'v) heap \<Rightarrow> ptr \<Rightarrow> ptr option" where
  "get_right h p = map_option right (deref h p)"

definition get_height :: "('k, 'v) heap \<Rightarrow> ptr \<Rightarrow> nat option" where
  "get_height h p = Option.bind (deref h p) height"

definition get_value :: "('k, 'v) heap \<Rightarrow> ptr \<Rightarrow> ('k \<times> 'v) option" where
  "get_value h p = map_option value' (deref h p)"

definition set_parent :: "('k, 'v) heap \<Rightarrow> ptr \<Rightarrow> ptr \<Rightarrow> ('k, 'v) heap option" where
  "set_parent h p q = map_option (\<lambda>n. store h p (n\<lparr>parent := q\<rparr>)) (deref h p)"

definition set_left :: "('k, 'v) heap \<Rightarrow> ptr \<Rightarrow> ptr \<Rightarrow> ('k, 'v) heap option" where
  "set_left h p q = map_option (\<lambda>n. store h p (n\<lparr>left := q\<rparr>)) (deref h p)"

definition set_right :: "('k, 'v) heap \<Rightarrow> ptr \<Rightarrow> ptr \<Rightarrow> ('k, 'v) heap option" where
  "set_right h p q = map_option (\<lambda>n. store h p (n\<lparr>right := q\<rparr>)) (deref h p)"

text \<open>
  \<^verbatim>\<open>node(const value_type& v = value_type())\<close>: the constructor behind \<^verbatim>\<open>new node(v)\<close> and
  \<^verbatim>\<open>new node\<close>. The default-constructed entry is \<open>(default, default)\<close>.
\<close>

definition new_node :: "'k \<times> 'v \<Rightarrow> ('k, 'v) heap \<Rightarrow> ('k, 'v) heap \<times> ptr" where
  "new_node v h =
     (h\<lparr>cells := (cells h)(fresh h \<mapsto>
          \<lparr>value' = v, parent = nullptr, left = nullptr, right = nullptr, height = Some 0\<rparr>),
        fresh := Suc (fresh h)\<rparr>,
      fresh h)"

definition is_root :: "('k, 'v) node \<Rightarrow> bool" where
  "is_root n = (parent n = nullptr)"

definition is_external :: "('k, 'v) node \<Rightarrow> bool" where
  "is_external n = (left n = nullptr \<and> right n = nullptr)"

definition is_internal :: "('k, 'v) node \<Rightarrow> bool" where
  "is_internal n = (\<not> is_external n)"

text \<open>\<^verbatim>\<open>node::replace\<close> overwrites key and mapped value in place.\<close>

definition replace :: "('k, 'v) heap \<Rightarrow> ptr \<Rightarrow> 'k \<times> 'v \<Rightarrow> ('k, 'v) heap option" where
  "replace h p v = map_option (\<lambda>n. store h p (n\<lparr>value' := (fst v, snd v)\<rparr>)) (deref h p)"

text \<open>\<^verbatim>\<open>node::set_height\<close> reads the stored heights of both children.\<close>

definition set_height :: "('k, 'v) heap \<Rightarrow> ptr \<Rightarrow> ('k, 'v) heap option" where
  "set_height h p = do {
     l \<leftarrow> get_left h p;
     hl \<leftarrow> get_height h l;
     r \<leftarrow> get_right h p;
     hr \<leftarrow> get_height h r;
     n \<leftarrow> deref h p;
     Some (store h p (n\<lparr>height := Some (1 + max hl hr)\<rparr>))
   }"

text \<open>
  The source default-constructs keys and mapped values (\<^verbatim>\<open>value_type()\<close>, \<^verbatim>\<open>Value()\<close>); the
  class \<open>default\<close> provides that value. The tests instantiate the container with
  \<^verbatim>\<open>int\<close> keys and \<^verbatim>\<open>std::string\<close> values.
\<close>

instantiation int :: default
begin
definition default_int :: int where "default_int = 0"
instance ..
end

instantiation list :: (type) default
begin
definition default_list :: "'a list" where "default_list = []"
instance ..
end

text \<open>\<^verbatim>\<open>node::expand\<close> turns an external node into an internal one with two new external children.\<close>

definition expand :: "('k::default, 'v::default) heap \<Rightarrow> ptr \<Rightarrow> ('k, 'v) heap option" where
  "expand h p = do {
     (h1, l) \<leftarrow> Some (new_node (default, default) h);
     h2 \<leftarrow> set_left h1 p l;
     (h3, r) \<leftarrow> Some (new_node (default, default) h2);
     h4 \<leftarrow> set_right h3 p r;
     h5 \<leftarrow> set_height h4 p;
     l' \<leftarrow> get_left h5 p;
     h6 \<leftarrow> set_parent h5 l' p;
     r' \<leftarrow> get_right h6 p;
     set_parent h6 r' p
   }"

text \<open>
  The destructor of \<^verbatim>\<open>node\<close> deletes both subtrees; \<^verbatim>\<open>delete\<close> of a null pointer does
  nothing.
\<close>

partial_function (option) delete_node :: "('k, 'v) heap \<Rightarrow> ptr \<Rightarrow> ('k, 'v) heap option" where [code]:
  "delete_node h p =
     (if p = nullptr then Some h
      else do {
        l \<leftarrow> get_left h p;
        h1 \<leftarrow> delete_node h l;
        r \<leftarrow> get_right h1 p;
        h2 \<leftarrow> delete_node h1 r;
        _ \<leftarrow> deref h2 p;
        Some (free h2 p)
      })"

text \<open>
  The copy constructor of \<^verbatim>\<open>node\<close>: a deep copy of the subtree. It initialises
  \<^verbatim>\<open>value\<close>, \<^verbatim>\<open>parent\<close>, \<^verbatim>\<open>left\<close> and \<^verbatim>\<open>right\<close>, and not \<^verbatim>\<open>height\<close>.
\<close>

partial_function (option) node_copy ::
  "('k, 'v) heap \<Rightarrow> ptr \<Rightarrow> (('k, 'v) heap \<times> ptr) option" where [code]:
  "node_copy h p = do {
     n \<leftarrow> deref h p;
     let a = fresh h;
     let h0 = h\<lparr>cells := (cells h)(a \<mapsto>
          \<lparr>value' = value' n, parent = nullptr, left = nullptr, right = nullptr, height = None\<rparr>),
        fresh := Suc a\<rparr>;
     n0 \<leftarrow> deref h0 p;
     if is_internal n0 then do {
       pl \<leftarrow> get_left h0 p;
       (h1, l) \<leftarrow> node_copy h0 pl;
       h2 \<leftarrow> set_left h1 a l;
       pr \<leftarrow> get_right h2 p;
       (h3, r) \<leftarrow> node_copy h2 pr;
       h4 \<leftarrow> set_right h3 a r;
       l' \<leftarrow> get_left h4 a;
       h5 \<leftarrow> set_parent h4 l' a;
       r' \<leftarrow> get_right h5 a;
       h6 \<leftarrow> set_parent h5 r' a;
       Some (h6, a)
     } else Some (h0, a)
   }"

text \<open>\<^verbatim>\<open>node::leftmost\<close>: descend along \<^verbatim>\<open>left\<close> to an external node and return its parent.\<close>

partial_function (option) leftmost :: "('k, 'v) heap \<Rightarrow> ptr \<Rightarrow> ptr option" where [code]:
  "leftmost h n = do {
     nd \<leftarrow> deref h n;
     if is_internal nd then leftmost h (left nd) else Some (parent nd)
   }"

text \<open>
  \<^verbatim>\<open>node::inorder_next\<close>. The loop of its second branch, \<^verbatim>\<open>while(n == w->right)\<close>, is
  \<open>climb_right\<close>.
\<close>

partial_function (option) climb_right :: "('k, 'v) heap \<Rightarrow> ptr \<Rightarrow> ptr \<Rightarrow> ptr option" where [code]:
  "climb_right h n w = do {
     wr \<leftarrow> get_right h w;
     if n = wr then do { w' \<leftarrow> get_parent h w; climb_right h w w' } else Some w
   }"

definition inorder_next :: "('k, 'v) heap \<Rightarrow> ptr \<Rightarrow> ptr option" where
  "inorder_next h p = do {
     r \<leftarrow> get_right h p;
     rn \<leftarrow> deref h r;
     if is_internal rn then leftmost h r
     else do { w \<leftarrow> get_parent h p; climb_right h p w }
   }"

text \<open>
  \<^verbatim>\<open>node::remove_above_external\<close>, called on an external node: its parent is unlinked, the
  sibling takes the parent's place, and both the node and its parent are deleted.
\<close>

definition remove_above_external ::
  "('k, 'v) heap \<Rightarrow> ptr \<Rightarrow> (('k, 'v) heap \<times> ptr) option" where
  "remove_above_external h w = do {
     par \<leftarrow> get_parent h w;
     pl \<leftarrow> get_left h par;
     sib \<leftarrow> (if w = pl then get_right h par else get_left h par);
     gpar \<leftarrow> get_parent h par;
     gl \<leftarrow> get_left h gpar;
     h1 \<leftarrow> (if par = gl then set_left h gpar sib else set_right h gpar sib);
     h2 \<leftarrow> set_parent h1 sib gpar;
     h3 \<leftarrow> set_right h2 par nullptr;
     h4 \<leftarrow> set_left h3 par nullptr;
     h5 \<leftarrow> delete_node h4 w;
     h6 \<leftarrow> delete_node h5 par;
     Some (h6, sib)
   }"

section \<open>The tree\<close>

text \<open>
  The class \<^verbatim>\<open>avl\<close> has two data members: \<^verbatim>\<open>root\<close>, the sentinel whose left child is the root
  of the data, and the element counter \<^verbatim>\<open>sz\<close>.
\<close>

record avl =
  root :: ptr
  sz :: nat

text \<open>\<^verbatim>\<open>avl::finder\<close>: the search loop, started at \<^verbatim>\<open>root->left\<close>.\<close>

partial_function (option) finder_loop ::
  "('k::linorder, 'v) heap \<Rightarrow> 'k \<Rightarrow> ptr \<Rightarrow> ptr option" where [code]:
  "finder_loop h k v = do {
     n \<leftarrow> deref h v;
     if is_internal n \<and> fst (value' n) \<noteq> k then
       (if k < fst (value' n) then finder_loop h k (left n) else finder_loop h k (right n))
     else Some v
   }"

definition finder :: "('k::linorder, 'v) heap \<Rightarrow> avl \<Rightarrow> 'k \<Rightarrow> ptr option" where
  "finder h t k = do { v \<leftarrow> get_left h (root t); finder_loop h k v }"

text \<open>
  \<^verbatim>\<open>avl::is_balanced\<close> subtracts two \<^verbatim>\<open>size_t\<close> (modulo \<open>2 ^ 64\<close>) and converts the
  difference to \<^verbatim>\<open>int\<close> (32 bits, two's complement).
\<close>

definition is_balanced :: "('k, 'v) heap \<Rightarrow> ptr \<Rightarrow> bool option" where
  "is_balanced h v = do {
     l \<leftarrow> get_left h v;
     hl \<leftarrow> get_height h l;
     r \<leftarrow> get_right h v;
     hr \<leftarrow> get_height h r;
     let bal = sint (ucast ((word_of_nat hl :: 64 word) - word_of_nat hr) :: 32 word);
     Some (- 1 \<le> bal \<and> bal \<le> 1)
   }"

definition tall_grandchild :: "('k, 'v) heap \<Rightarrow> ptr \<Rightarrow> ptr option" where
  "tall_grandchild h z = do {
     zl \<leftarrow> get_left h z;
     zr \<leftarrow> get_right h z;
     hzl \<leftarrow> get_height h zl;
     hzr \<leftarrow> get_height h zr;
     if hzl \<ge> hzr then do {
       zll \<leftarrow> get_left h zl;
       hzll \<leftarrow> get_height h zll;
       zlr \<leftarrow> get_right h zl;
       hzlr \<leftarrow> get_height h zlr;
       if hzll \<ge> hzlr then Some zll else Some zlr
     } else do {
       zrr \<leftarrow> get_right h zr;
       hzrr \<leftarrow> get_height h zrr;
       zrl \<leftarrow> get_left h zr;
       hzrl \<leftarrow> get_height h zrl;
       if hzrr \<ge> hzrl then Some zrr else Some zrl
     }
   }"

text \<open>
  \<^verbatim>\<open>avl::restructure\<close>: the trinode restructuring around the grandchild \<open>x\<close>, its parent
  \<open>y\<close> and its grandparent \<open>z\<close>, statement by statement.
\<close>

definition restructure :: "('k, 'v) heap \<Rightarrow> ptr \<Rightarrow> (('k, 'v) heap \<times> ptr) option" where
  "restructure h x = do {
     y \<leftarrow> get_parent h x;
     z \<leftarrow> get_parent h y;
     zr \<leftarrow> get_right h z;
     yr \<leftarrow> get_right h y;
     zl \<leftarrow> get_left h z;
     yl \<leftarrow> get_left h y;
     (a, b, c) \<leftarrow> Some
       (if zr = y \<and> yr = x then (z, y, x)
        else if zl = y \<and> yl = x then (x, y, z)
        else if zr = y \<and> yl = x then (z, x, y)
        else (y, x, z));
     zp \<leftarrow> get_parent h z;
     zpl \<leftarrow> get_left h zp;
     h1 \<leftarrow> (if zpl = z then set_left h zp b else Some h);
     zp1 \<leftarrow> get_parent h1 z;
     zpr \<leftarrow> get_right h1 zp1;
     h2 \<leftarrow> (if zpr = z then set_right h1 zp1 b else Some h1);
     zp2 \<leftarrow> get_parent h2 z;
     h3 \<leftarrow> set_parent h2 b zp2;
     h4 \<leftarrow> set_parent h3 a b;
     h5 \<leftarrow> set_parent h4 c b;
     bl \<leftarrow> get_left h5 b;
     h6 \<leftarrow> (if bl \<noteq> a then do {
              h' \<leftarrow> set_right h5 a bl;
              bl' \<leftarrow> get_left h' b;
              set_parent h' bl' a
            } else Some h5);
     h7 \<leftarrow> set_left h6 b a;
     br \<leftarrow> get_right h7 b;
     h8 \<leftarrow> (if br \<noteq> c then do {
              h' \<leftarrow> set_left h7 c br;
              br' \<leftarrow> get_right h' b;
              set_parent h' br' c
            } else Some h7);
     h9 \<leftarrow> set_right h8 b c;
     Some (h9, b)
   }"

text \<open>\<^verbatim>\<open>avl::rebalance\<close>: the walk from \<open>v\<close> up to the child of the sentinel.\<close>

partial_function (option) rebalance :: "('k, 'v) heap \<Rightarrow> ptr \<Rightarrow> ('k, 'v) heap option" where [code]:
  "rebalance h z = do {
     p \<leftarrow> get_parent h z;
     pn \<leftarrow> deref h p;
     if \<not> is_root pn then do {
       h1 \<leftarrow> set_height h p;
       bal \<leftarrow> is_balanced h1 p;
       if \<not> bal then do {
         x \<leftarrow> tall_grandchild h1 p;
         (h2, b) \<leftarrow> restructure h1 x;
         l \<leftarrow> get_left h2 b;
         h3 \<leftarrow> set_height h2 l;
         r \<leftarrow> get_right h3 b;
         h4 \<leftarrow> set_height h3 r;
         h5 \<leftarrow> set_height h4 b;
         rebalance h5 b
       } else rebalance h1 p
     } else Some h
   }"

definition inserter ::
  "('k::{linorder,default}, 'v::default) heap \<Rightarrow> avl \<Rightarrow> 'k \<times> 'v \<Rightarrow>
   (('k, 'v) heap \<times> avl \<times> ptr \<times> bool) option" where
  "inserter h t v = do {
     n \<leftarrow> finder h t (fst v);
     nd \<leftarrow> deref h n;
     if is_external nd then do {
       h1 \<leftarrow> expand h n;
       h2 \<leftarrow> replace h1 n v;
       h3 \<leftarrow> rebalance h2 n;
       Some (h3, t\<lparr>sz := sz t + 1\<rparr>, n, True)
     } else Some (h, t, n, False)
   }"

definition eraser ::
  "('k, 'v) heap \<Rightarrow> avl \<Rightarrow> ptr \<Rightarrow> (('k, 'v) heap \<times> avl \<times> ptr) option" where
  "eraser h t n = do {
     nl \<leftarrow> get_left h n;
     nln \<leftarrow> deref h nl;
     (h1, w) \<leftarrow>
       (if is_external nln then Some (h, nl)
        else do {
          nr \<leftarrow> get_right h n;
          nrn \<leftarrow> deref h nr;
          if is_external nrn then Some (h, nr)
          else do {
            w \<leftarrow> inorder_next h n;
            wv \<leftarrow> get_value h w;
            h' \<leftarrow> replace h n wv;
            wl \<leftarrow> get_left h' w;
            Some (h', wl)
          }
        });
     (h2, s) \<leftarrow> remove_above_external h1 w;
     Some (h2, t\<lparr>sz := (if sz t = 0 then 2 ^ 64 - 1 else sz t - 1)\<rparr>, s)
   }"

section \<open>The public interface\<close>

datatype error = OutOfRange

text \<open>The constructors, the copy assignment and \<^verbatim>\<open>clear\<close>.\<close>

definition avl_new :: "('k::default, 'v::default) heap \<Rightarrow> (('k, 'v) heap \<times> avl) option" where
  "avl_new h = do {
     (h1, r) \<leftarrow> Some (new_node (default, default) h);
     h2 \<leftarrow> expand h1 r;
     Some (h2, \<lparr>root = r, sz = 0\<rparr>)
   }"

definition avl_copy :: "('k, 'v) heap \<Rightarrow> avl \<Rightarrow> (('k, 'v) heap \<times> avl) option" where
  "avl_copy h m = do {
     (h1, r) \<leftarrow> node_copy h (root m);
     Some (h1, \<lparr>root = r, sz = sz m\<rparr>)
   }"

text \<open>
  \<^verbatim>\<open>operator=\<close> compares the addresses of the two \<^verbatim>\<open>avl\<close> objects. The objects live in a
  store \<open>S\<close> indexed by their addresses; \<open>this\<close> and \<open>m\<close> are such addresses.
\<close>

definition avl_assign ::
  "('k, 'v) heap \<Rightarrow> (nat \<Rightarrow> avl) \<Rightarrow> nat \<Rightarrow> nat \<Rightarrow> (('k, 'v) heap \<times> (nat \<Rightarrow> avl)) option" where
  "avl_assign h S this m =
     (if this \<noteq> m then do {
        h1 \<leftarrow> delete_node h (root (S this));
        (h2, r) \<leftarrow> node_copy h1 (root (S m));
        Some (h2, S(this := \<lparr>root = r, sz = sz (S m)\<rparr>))
      } else Some (h, S))"

definition clear :: "('k::default, 'v::default) heap \<Rightarrow> avl \<Rightarrow> (('k, 'v) heap \<times> avl) option" where
  "clear h t = do {
     h1 \<leftarrow> delete_node h (root t);
     (h2, r) \<leftarrow> Some (new_node (default, default) h1);
     h3 \<leftarrow> expand h2 r;
     Some (h3, \<lparr>root = r, sz = 0\<rparr>)
   }"

text \<open>Iterators are node pointers.\<close>

definition begin' :: "('k, 'v) heap \<Rightarrow> avl \<Rightarrow> ptr option" where
  "begin' h t = leftmost h (root t)"

definition end' :: "avl \<Rightarrow> ptr" where
  "end' t = root t"

definition size' :: "avl \<Rightarrow> nat" where
  "size' t = sz t"

definition empty' :: "avl \<Rightarrow> bool" where
  "empty' t = (sz t = 0)"

definition find' :: "('k::linorder, 'v) heap \<Rightarrow> avl \<Rightarrow> 'k \<Rightarrow> ptr option" where
  "find' h t k = do {
     b \<leftarrow> finder h t k;
     bn \<leftarrow> deref h b;
     if is_internal bn then Some b else Some (end' t)
   }"

definition count' :: "('k::linorder, 'v) heap \<Rightarrow> avl \<Rightarrow> 'k \<Rightarrow> nat option" where
  "count' h t k = do {
     b \<leftarrow> finder h t k;
     bn \<leftarrow> deref h b;
     if is_internal bn then Some 1 else Some 0
   }"

text \<open>
  \<^verbatim>\<open>operator[]\<close> and \<^verbatim>\<open>at\<close> return a reference to the member \<^verbatim>\<open>value.second\<close> of a node.
  The reference is modelled as the address of that node; \<open>read_ref\<close> and \<open>write_ref\<close>
  read and assign through it.
\<close>

definition read_ref :: "('k, 'v) heap \<Rightarrow> ptr \<Rightarrow> 'v option" where
  "read_ref h p = map_option (\<lambda>n. snd (value' n)) (deref h p)"

definition write_ref :: "('k, 'v) heap \<Rightarrow> ptr \<Rightarrow> 'v \<Rightarrow> ('k, 'v) heap option" where
  "write_ref h p w = map_option (\<lambda>n. store h p (n\<lparr>value' := (fst (value' n), w)\<rparr>)) (deref h p)"

definition subscript ::
  "('k::{linorder,default}, 'v::default) heap \<Rightarrow> avl \<Rightarrow> 'k \<Rightarrow> (('k, 'v) heap \<times> avl \<times> ptr) option" where
  "subscript h t k = do {
     (h1, t1, n, _) \<leftarrow> inserter h t (k, default);
     _ \<leftarrow> deref h1 n;
     Some (h1, t1, n)
   }"

definition at :: "('k::linorder, 'v) heap \<Rightarrow> avl \<Rightarrow> 'k \<Rightarrow> (error + ('k, 'v) heap \<times> ptr) option" where
  "at h t k = do {
     m \<leftarrow> find' h t k;
     if m = end' t then Some (Inl OutOfRange)
     else do {
       q \<leftarrow> get_value h m;
       (h1, n) \<leftarrow> Some (new_node q h);
       _ \<leftarrow> deref h1 n;
       Some (Inr (h1, n))
     }
   }"

definition insert' ::
  "('k::{linorder,default}, 'v::default) heap \<Rightarrow> avl \<Rightarrow> 'k \<times> 'v \<Rightarrow>
   (('k, 'v) heap \<times> avl \<times> ptr \<times> bool) option" where
  "insert' h t v = inserter h t v"

definition erase_pos ::
  "('k::linorder, 'v) heap \<Rightarrow> avl \<Rightarrow> ptr \<Rightarrow> (error + ('k, 'v) heap \<times> avl \<times> ptr) option" where
  "erase_pos h t position = do {
     v \<leftarrow> get_value h position;
     n \<leftarrow> finder h t (fst v);
     nd \<leftarrow> deref h n;
     if is_external nd then Some (Inl OutOfRange)
     else do { r \<leftarrow> eraser h t n; Some (Inr r) }
   }"

definition erase_key ::
  "('k::linorder, 'v) heap \<Rightarrow> avl \<Rightarrow> 'k \<Rightarrow> (('k, 'v) heap \<times> avl \<times> nat) option" where
  "erase_key h t k = do {
     n \<leftarrow> finder h t k;
     nd \<leftarrow> deref h n;
     if is_internal nd then do { (h1, t1, _) \<leftarrow> eraser h t n; Some (h1, t1, 1) }
     else Some (h, t, 0)
   }"

text \<open>
  The loops the tests run over a tree: \<^verbatim>\<open>for (it = begin(); it != end(); ++it)\<close>, reading
  each entry (\<open>traverse\<close>) or assigning to each mapped value (\<open>assign_all\<close>).
\<close>

partial_function (option) iterate ::
  "('k, 'v) heap \<Rightarrow> ptr \<Rightarrow> ptr \<Rightarrow> ('k \<times> 'v) list option" where [code]:
  "iterate h e it =
     (if it = e then Some []
      else do {
        v \<leftarrow> get_value h it;
        nx \<leftarrow> inorder_next h it;
        vs \<leftarrow> iterate h e nx;
        Some (v # vs)
      })"

definition traverse :: "('k, 'v) heap \<Rightarrow> avl \<Rightarrow> ('k \<times> 'v) list option" where
  "traverse h t = do { b \<leftarrow> begin' h t; iterate h (end' t) b }"



section \<open>Running the public operations\<close>

text \<open>
  A client's calls on one tree, in order: \<^verbatim>\<open>insert\<close>, \<^verbatim>\<open>erase(key)\<close>, \<^verbatim>\<open>erase(begin())\<close> and
  \<^verbatim>\<open>clear\<close>. \<open>build\<close> runs them on a default-constructed tree in an empty heap.
\<close>

datatype ('k, 'v) op = Insert "'k \<times> 'v" | Erase 'k | EraseBegin | Clear

fun step ::
  "('k::{linorder,default}, 'v::default) heap \<times> avl \<Rightarrow> ('k, 'v) op \<Rightarrow> (('k, 'v) heap \<times> avl) option" where
  "step (h, t) (Insert v) = do { (h1, t1, _, _) \<leftarrow> insert' h t v; Some (h1, t1) }"
| "step (h, t) (Erase k) = do { (h1, t1, _) \<leftarrow> erase_key h t k; Some (h1, t1) }"
| "step (h, t) EraseBegin = do {
     b \<leftarrow> begin' h t;
     r \<leftarrow> erase_pos h t b;
     case r of Inl _ \<Rightarrow> Some (h, t) | Inr (h1, t1, _) \<Rightarrow> Some (h1, t1)
   }"
| "step (h, t) Clear = clear h t"

fun run ::
  "('k::{linorder,default}, 'v::default) heap \<times> avl \<Rightarrow> ('k, 'v) op list \<Rightarrow> (('k, 'v) heap \<times> avl) option" where
  "run s [] = Some s"
| "run s (x # xs) = do { s1 \<leftarrow> step s x; run s1 xs }"

definition build ::
  "('k::{linorder,default}, 'v::default) op list \<Rightarrow> (('k, 'v) heap \<times> avl) option" where
  "build xs = do { s \<leftarrow> avl_new empty_heap; run s xs }"


section \<open>The tree a heap represents\<close>

text \<open>
  The statements about arbitrary trees need to say which heaps hold a tree. A \<open>shape\<close>
  names the nodes of a binary tree by their addresses: \<open>Leaf a\<close> is an external node,
  \<open>Node l a r\<close> an internal node with both subtrees. \<open>wft h p s\<close> says that the heap \<open>h\<close>
  contains the nodes of \<open>s\<close>, linked as in \<open>s\<close>, the topmost one with parent pointer \<open>p\<close>.
\<close>

datatype shape = Leaf ptr | Node shape ptr shape

fun addr :: "shape \<Rightarrow> ptr" where
  "addr (Leaf a) = a"
| "addr (Node l a r) = a"

fun addrs :: "shape \<Rightarrow> ptr list" where
  "addrs (Leaf a) = [a]"
| "addrs (Node l a r) = addrs l @ a # addrs r"

fun internals :: "shape \<Rightarrow> ptr list" where
  "internals (Leaf a) = []"
| "internals (Node l a r) = internals l @ a # internals r"

fun wft :: "('k, 'v) heap \<Rightarrow> ptr \<Rightarrow> shape \<Rightarrow> bool" where
  "wft h p (Leaf a) =
     (case deref h a of None \<Rightarrow> False
      | Some n \<Rightarrow> parent n = p \<and> left n = nullptr \<and> right n = nullptr)"
| "wft h p (Node l a r) =
     ((case deref h a of None \<Rightarrow> False
       | Some n \<Rightarrow> parent n = p \<and> left n = addr l \<and> right n = addr r) \<and>
      wft h a l \<and> wft h a r)"

text \<open>The entry stored in a live node, and the entries of a shape in in-order.\<close>

definition entry :: "('k, 'v) heap \<Rightarrow> ptr \<Rightarrow> 'k \<times> 'v" where
  "entry h a = value' (the (cells h a))"

definition entries :: "('k, 'v) heap \<Rightarrow> shape \<Rightarrow> ('k \<times> 'v) list" where
  "entries h s = map (entry h) (internals s)"

definition keys :: "('k, 'v) heap \<Rightarrow> shape \<Rightarrow> 'k list" where
  "keys h s = map fst (entries h s)"

text \<open>
  The representation invariant of an \<^verbatim>\<open>avl\<close> object \<open>t\<close> in a heap \<open>h\<close>: the sentinel
  \<open>root t\<close> has no parent, the data tree \<open>s\<close> as its left child and the external node \<open>e\<close>
  as its right child; no node occurs twice; all nodes were allocated; the keys increase
  strictly in in-order; and \<open>sz t\<close> counts the internal nodes of the data tree. Stored
  heights are not part of it.
\<close>

definition tree_inv :: "('k::linorder, 'v) heap \<Rightarrow> avl \<Rightarrow> shape \<Rightarrow> ptr \<Rightarrow> bool" where
  "tree_inv h t s e =
     (wft h nullptr (Node s (root t) (Leaf e)) \<and>
      distinct (addrs (Node s (root t) (Leaf e))) \<and>
      list_all (\<lambda>a. a < fresh h) (addrs (Node s (root t) (Leaf e))) \<and>
      sorted_wrt (<) (keys h s) \<and>
      sz t = length (internals s))"

definition avl_inv :: "('k::linorder, 'v) heap \<Rightarrow> avl \<Rightarrow> bool" where
  "avl_inv h t = (\<exists>s e. tree_inv h t s e)"

text \<open>
  A position inside a shape: the path from a subtree up to the top, innermost step first.
  \<open>L a r\<close> says that the subtree is the left child of \<open>a\<close>, whose right subtree is \<open>r\<close>;
  \<open>R l a\<close> that it is the right child of \<open>a\<close>, whose left subtree is \<open>l\<close>.
\<close>

datatype frame = L ptr shape | R shape ptr

fun plug :: "frame list \<Rightarrow> shape \<Rightarrow> shape" where
  "plug [] s = s"
| "plug (L a r # c) s = plug c (Node s a r)"
| "plug (R l a # c) s = plug c (Node l a s)"

fun hole_parent :: "ptr \<Rightarrow> frame list \<Rightarrow> ptr" where
  "hole_parent p [] = p"
| "hole_parent p (L a r # c) = a"
| "hole_parent p (R l a # c) = a"

fun wfc :: "('k, 'v) heap \<Rightarrow> ptr \<Rightarrow> frame list \<Rightarrow> ptr \<Rightarrow> bool" where
  "wfc h p [] x = True"
| "wfc h p (L a r # c) x =
     ((case deref h a of None \<Rightarrow> False
       | Some n \<Rightarrow> parent n = hole_parent p c \<and> left n = x \<and> right n = addr r) \<and>
      wft h a r \<and> wfc h p c a)"
| "wfc h p (R l a # c) x =
     ((case deref h a of None \<Rightarrow> False
       | Some n \<Rightarrow> parent n = hole_parent p c \<and> left n = addr l \<and> right n = x) \<and>
      wft h a l \<and> wfc h p c a)"

text \<open>The addresses and the internal nodes of a path, before and after its hole in in-order.\<close>

fun before_hole :: "frame list \<Rightarrow> ptr list" where
  "before_hole [] = []"
| "before_hole (L a r # c) = before_hole c"
| "before_hole (R l a # c) = before_hole c @ addrs l @ [a]"

fun after_hole :: "frame list \<Rightarrow> ptr list" where
  "after_hole [] = []"
| "after_hole (L a r # c) = a # addrs r @ after_hole c"
| "after_hole (R l a # c) = after_hole c"

fun internals_before :: "frame list \<Rightarrow> ptr list" where
  "internals_before [] = []"
| "internals_before (L a r # c) = internals_before c"
| "internals_before (R l a # c) = internals_before c @ internals l @ [a]"

fun internals_after :: "frame list \<Rightarrow> ptr list" where
  "internals_after [] = []"
| "internals_after (L a r # c) = a # internals r @ internals_after c"
| "internals_after (R l a # c) = internals_after c"

text \<open>The search path of a key, as \<^verbatim>\<open>finder\<close> walks it.\<close>

fun descend :: "('k::linorder, 'v) heap \<Rightarrow> 'k \<Rightarrow> frame list \<Rightarrow> shape \<Rightarrow> frame list \<times> shape" where
  "descend h k c (Leaf a) = (c, Leaf a)"
| "descend h k c (Node l a r) =
     (if fst (entry h a) = k then (c, Node l a r)
      else if k < fst (entry h a) then descend h k (L a r # c) l
      else descend h k (R l a # c) r)"

text \<open>The pointer fields of a node, and the two components of a step of a path.\<close>

definition links :: "('k, 'v) node \<Rightarrow> ptr \<times> ptr \<times> ptr" where
  "links n = (parent n, left n, right n)"

fun frame_addr :: "frame \<Rightarrow> ptr" where
  "frame_addr (L a r) = a"
| "frame_addr (R l a) = a"

fun frame_other :: "frame \<Rightarrow> shape" where
  "frame_other (L a r) = r"
| "frame_other (R l a) = l"



fun set_values :: "('k, 'v) heap \<Rightarrow> ptr list \<Rightarrow> 'v \<Rightarrow> ('k, 'v) heap" where
  "set_values h [] w = h"
| "set_values h (a # as) w =
     set_values (store h a ((the (cells h a))\<lparr>value' := (fst (entry h a), w)\<rparr>)) as w"


section \<open>An example state\<close>

text \<open>
  The heap and the \<^verbatim>\<open>avl\<close> object that \<^verbatim>\<open>avl<int, string>\<close> reaches by inserting the keys
  2, 1 and 3 into a new tree, written out, and the shape of its data tree.
\<close>

definition ex_node :: "int \<times> string \<Rightarrow> ptr \<Rightarrow> ptr \<Rightarrow> ptr \<Rightarrow> nat \<Rightarrow> (int, string) node" where
  "ex_node v p l r ht = \<lparr>value' = v, parent = p, left = l, right = r, height = Some ht\<rparr>"

definition ex_heap :: "(int, string) heap" where
  "ex_heap =
     \<lparr>cells = map_of
        [(1, ex_node (0, []) 0 2 3 1),
         (2, ex_node (2, ''b'') 1 4 5 2),
         (3, ex_node (0, []) 1 0 0 0),
         (4, ex_node (1, ''a'') 2 6 7 1),
         (5, ex_node (3, ''c'') 2 8 9 1),
         (6, ex_node (0, []) 4 0 0 0),
         (7, ex_node (0, []) 4 0 0 0),
         (8, ex_node (0, []) 5 0 0 0),
         (9, ex_node (0, []) 5 0 0 0)],
      fresh = 10\<rparr>"

definition ex_tree :: avl where
  "ex_tree = \<lparr>root = 1, sz = 3\<rparr>"

definition ex_shape :: shape where
  "ex_shape = Node (Node (Leaf 6) 4 (Leaf 7)) 2 (Node (Leaf 8) 5 (Leaf 9))"



section \<open>Heaps and shapes\<close>

lemma deref_store [simp]: "deref (store h p n) q = (if q = p \<and> p \<noteq> 0 then Some n else deref h q)"
  by (simp add: deref_def store_def)

lemma cells_store [simp]: "cells (store h p n) = (cells h)(p \<mapsto> n)"
  by (simp add: store_def)

lemma fresh_store [simp]: "fresh (store h p n) = fresh h"
  by (simp add: store_def)

lemma deref_0 [simp]: "deref h 0 = None"
  by (simp add: deref_def)

lemma deref_Some_nonnull: "deref h a = Some n \<Longrightarrow> a \<noteq> 0"
  by (auto simp: deref_def split: if_splits)

lemma deref_Some_cells: "deref h a = Some n \<Longrightarrow> cells h a = Some n"
  by (auto simp: deref_def split: if_splits)

lemma wf_addr_nonnull: "wft h p s \<Longrightarrow> addr s \<noteq> 0"
  by (cases s) (auto split: option.splits dest: deref_Some_nonnull)

lemma addr_in_addrs: "addr s \<in> set (addrs s)"
  by (cases s) auto

lemma internals_subset: "set (internals s) \<subseteq> set (addrs s)"
  by (induction s) auto

lemma wf_cong_heap:
  "(\<And>a. a \<in> set (addrs s) \<Longrightarrow> deref h' a = deref h a) \<Longrightarrow> wft h' p s = wft h p s"
  by (induction s arbitrary: p) auto

lemma wfc_cong_heap:
  "(\<And>a. a \<in> set (before_hole c @ after_hole c) \<Longrightarrow> deref h' a = deref h a) \<Longrightarrow> wfc h' p c x = wfc h p c x"
proof (induction c arbitrary: x)
  case Nil
  then show ?case by simp
next
  case (Cons f c)
  show ?case
  proof (cases f)
    case (L a r)
    have 1: "deref h' a = deref h a" using Cons.prems L by simp
    have 2: "wft h' a r = wft h a r" using Cons.prems L by (intro wf_cong_heap) auto
    have 3: "wfc h' p c a = wfc h p c a" using Cons.prems L by (intro Cons.IH) auto
    show ?thesis using 1 2 3 L by simp
  next
    case (R l a)
    have 1: "deref h' a = deref h a" using Cons.prems R by simp
    have 2: "wft h' a l = wft h a l" using Cons.prems R by (intro wf_cong_heap) auto
    have 3: "wfc h' p c a = wfc h p c a" using Cons.prems R by (intro Cons.IH) auto
    show ?thesis using 1 2 3 R by simp
  qed
qed

lemma wf_plug: "wft h p (plug c s) = (wft h (hole_parent p c) s \<and> wfc h p c (addr s))"
proof (induction c arbitrary: s)
  case Nil
  then show ?case by simp
next
  case (Cons f c)
  then show ?case by (cases f) (auto split: option.splits)
qed

lemma addrs_plug: "addrs (plug c s) = before_hole c @ addrs s @ after_hole c"
proof (induction c arbitrary: s)
  case Nil
  then show ?case by simp
next
  case (Cons f c)
  then show ?case by (cases f) auto
qed

lemma internals_plug: "internals (plug c s) = internals_before c @ internals s @ internals_after c"
proof (induction c arbitrary: s)
  case Nil
  then show ?case by simp
next
  case (Cons f c)
  then show ?case by (cases f) auto
qed

lemma plug_descend: "descend h k c s = (c', s') \<Longrightarrow> plug c' s' = plug c s"
  by (induction s arbitrary: c) (auto split: if_splits)

lemma finder_loop_descend:
  "wft h p s \<Longrightarrow> finder_loop h k (addr s) = Some (addr (snd (descend h k c s)))"
proof (induction s arbitrary: p c)
  case (Leaf a)
  then show ?case
    by (subst finder_loop.simps) (auto simp: is_internal_def is_external_def split: option.splits)
next
  case (Node l a r)
  from Node.prems obtain n where n: "deref h a = Some n" "left n = addr l" "right n = addr r"
    and l: "wft h a l" and r: "wft h a r"
    by (auto split: option.splits)
  have int: "is_internal n" using n l by (auto simp: is_internal_def is_external_def dest: wf_addr_nonnull)
  have e: "fst (entry h a) = fst (value' n)" using n(1) by (simp add: entry_def deref_Some_cells)
  show ?case
    using Node.IH(1)[OF l, of "L a r # c"] Node.IH(2)[OF r, of "R l a # c"] n int e
    by (subst finder_loop.simps) (simp)
qed


lemma entries_simps [simp]:
  "entries h (Leaf a) = []"
  "entries h (Node l a r) = entries h l @ entry h a # entries h r"
  by (simp_all add: entries_def)

lemma keys_simps [simp]:
  "keys h (Leaf a) = []"
  "keys h (Node l a r) = keys h l @ fst (entry h a) # keys h r"
  by (simp_all add: keys_def)

lemma length_entries [simp]: "length (entries h s) = length (internals s)"
  by (simp add: entries_def)

lemma keys_set: "set (keys h s) = (\<lambda>a. fst (entry h a)) ` set (internals s)"
  by (auto simp: keys_def entries_def)

lemma wf_NodeD:
  assumes "wft h p (Node l a r)"
  obtains n where "deref h a = Some n" "parent n = p" "left n = addr l" "right n = addr r"
    "wft h a l" "wft h a r" "is_internal n" "a \<noteq> 0" "entry h a = value' n"
proof -
  from assms obtain n where n: "deref h a = Some n" "parent n = p" "left n = addr l" "right n = addr r"
    and l: "wft h a l" and r: "wft h a r"
    by (auto split: option.splits)
  have "is_internal n" using n l by (auto simp: is_internal_def is_external_def dest: wf_addr_nonnull)
  moreover have "entry h a = value' n" using n(1) by (simp add: entry_def deref_Some_cells)
  moreover have "a \<noteq> 0" using n(1) by (rule deref_Some_nonnull)
  ultimately show thesis using that n l r by blast
qed

lemma wf_LeafD:
  assumes "wft h p (Leaf a)"
  obtains n where "deref h a = Some n" "parent n = p" "left n = 0" "right n = 0" "is_external n" "a \<noteq> 0"
proof -
  from assms obtain n where n: "deref h a = Some n" "parent n = p" "left n = 0" "right n = 0"
    by (auto split: option.splits)
  then show thesis using that[OF n] by (auto simp: is_external_def dest: deref_Some_nonnull)
qed

lemma descend_result:
  "sorted_wrt (<) (keys h s) \<Longrightarrow>
   (case snd (descend h k c s) of
      Leaf x \<Rightarrow> k \<notin> set (keys h s)
    | Node l a r \<Rightarrow> a \<in> set (internals s) \<and> fst (entry h a) = k)"
proof (induction s arbitrary: c)
  case (Leaf x)
  then show ?case by simp
next
  case (Node l a r)
  from Node.prems have sl: "sorted_wrt (<) (keys h l)" and sr: "sorted_wrt (<) (keys h r)"
    and lt: "\<forall>x\<in>set (keys h l). x < fst (entry h a)"
    and gt: "\<forall>x\<in>set (keys h r). fst (entry h a) < x"
    by (auto simp: sorted_wrt_append)
  show ?case
  proof (cases "fst (entry h a) = k")
    case True
    then show ?thesis by simp
  next
    case ne: False
    show ?thesis
    proof (cases "k < fst (entry h a)")
      case True
      with ne Node.IH(1)[OF sl, of "L a r # c"] gt show ?thesis
        by (auto split: shape.splits)
    next
      case False
      with ne Node.IH(2)[OF sr, of "R l a # c"] lt show ?thesis
        by (auto split: shape.splits)
    qed
  qed
qed

lemma leftmost_wf: "wft h p s \<Longrightarrow> leftmost h (addr s) = Some (hd (internals s @ [p]))"
proof (induction s arbitrary: p)
  case (Leaf a)
  then show ?case
    by (subst leftmost.simps) (auto simp: is_internal_def is_external_def split: option.splits)
next
  case (Node l a r)
  from Node.prems obtain n where n: "deref h a = Some n" "left n = addr l" "is_internal n" and l: "wft h a l"
    by (rule wf_NodeD)
  have "leftmost h a = leftmost h (addr l)"
    using n by (subst leftmost.simps) simp
  also have "\<dots> = Some (hd (internals l @ [a]))" by (rule Node.IH(1)[OF l])
  also have "hd (internals l @ [a]) = hd (internals (Node l a r) @ [p])"
    by (cases "internals l") auto
  finally show ?case by simp
qed

lemma climb_right_stop:
  "deref h w = Some wn \<Longrightarrow> right wn \<noteq> n \<Longrightarrow> climb_right h n w = Some w"
  by (subst climb_right.simps) (simp add: get_right_def)

lemma climb_right_step:
  "deref h w = Some wn \<Longrightarrow> right wn = n \<Longrightarrow> climb_right h n w = climb_right h w (parent wn)"
  by (subst climb_right.simps) (simp add: get_right_def get_parent_def)

lemma addr_neq_of_distinct:
  "distinct (addrs (Node l a r)) \<Longrightarrow> addr l \<noteq> addr r \<and> addr l \<noteq> a \<and> addr r \<noteq> a"
  using addr_in_addrs[of l] addr_in_addrs[of r] by fastforce

lemma inorder_next_wf:
  assumes "wft h p (Node l a r)" "climb_right h a p = Some nxt"
  shows "inorder_next h a = Some (hd (internals r @ [nxt]))"
proof -
  from assms(1) obtain n where n: "deref h a = Some n" "parent n = p" "right n = addr r" and r: "wft h a r"
    by (rule wf_NodeD)
  show ?thesis
  proof (cases r)
    case (Leaf x)
    from r[unfolded Leaf] obtain rn where "deref h x = Some rn" "is_external rn" by (rule wf_LeafD)
    then show ?thesis using n assms(2) Leaf
      by (simp add: inorder_next_def get_right_def get_parent_def is_internal_def)
  next
    case (Node rl x rr)
    from r[unfolded Node] obtain rn where rn: "deref h x = Some rn" "is_internal rn" by (rule wf_NodeD)
    have "leftmost h (addr r) = Some (hd (internals r @ [a]))" by (rule leftmost_wf[OF r])
    moreover have "hd (internals r @ [a]) = hd (internals r @ [nxt])"
      using Node by (cases "internals rl") auto
    ultimately show ?thesis using n rn Node
      by (simp add: inorder_next_def get_right_def)
  qed
qed

lemma get_value_wf: "wft h p (Node l a r) \<Longrightarrow> get_value h a = Some (entry h a)"
  by (erule wf_NodeD) (simp add: get_value_def)

lemma iterate_subtree:
  "wft h p s \<Longrightarrow> distinct (addrs s) \<Longrightarrow> e \<notin> set (internals s) \<Longrightarrow>
   climb_right h (addr s) p = Some nxt \<Longrightarrow> iterate h e nxt = Some rest \<Longrightarrow>
   iterate h e (hd (internals s @ [nxt])) = Some (entries h s @ rest)"
proof (induction s arbitrary: p nxt rest)
  case (Leaf a)
  then show ?case by simp
next
  case (Node l a r)
  from Node.prems(1) obtain n where n: "deref h a = Some n" "parent n = p" "left n = addr l" "right n = addr r"
    and l: "wft h a l" and r: "wft h a r"
    by (rule wf_NodeD)
  have dl: "distinct (addrs l)" and dr: "distinct (addrs r)" using Node.prems(2) by auto
  have ne: "addr l \<noteq> addr r" using addr_neq_of_distinct[OF Node.prems(2)] by simp
  have el: "e \<notin> set (internals l)" and er: "e \<notin> set (internals r)" and ea: "a \<noteq> e"
    using Node.prems(3) by auto
  have up: "climb_right h a p = Some nxt" using Node.prems(4) by simp
  have cr: "climb_right h (addr r) a = Some nxt"
    using climb_right_step[OF n(1) n(4)] n(2) up by simp
  have itr: "iterate h e (hd (internals r @ [nxt])) = Some (entries h r @ rest)"
    by (rule Node.IH(2)[OF r dr er cr Node.prems(5)])
  have nx: "inorder_next h a = Some (hd (internals r @ [nxt]))"
    by (rule inorder_next_wf[OF Node.prems(1) up])
  have ita: "iterate h e a = Some (entry h a # entries h r @ rest)"
    using ea nx itr get_value_wf[OF Node.prems(1)] by (subst iterate.simps) simp
  have cl: "climb_right h (addr l) a = Some a"
    using climb_right_stop[OF n(1), of "addr l"] n(4) ne by simp
  have "iterate h e (hd (internals l @ [a])) = Some (entries h l @ entry h a # entries h r @ rest)"
    by (rule Node.IH(1)[OF l dl el cl ita])
  moreover have "hd (internals (Node l a r) @ [nxt]) = hd (internals l @ [a])"
    by (cases "internals l") auto
  ultimately show ?case by simp
qed

lemma traverse_inv:
  assumes "tree_inv h t s e"
  shows "traverse h t = Some (entries h s)"
proof -
  let ?W = "Node s (root t) (Leaf e)"
  from assms have wf: "wft h 0 ?W" and d: "distinct (addrs ?W)" by (auto simp: tree_inv_def)
  from wf obtain n where n: "deref h (root t) = Some n" "parent n = 0" "left n = addr s" "right n = e"
    and s: "wft h (root t) s"
    by (rule wf_NodeD) auto
  have b: "begin' h t = Some (hd (internals s @ [root t]))"
    using leftmost_wf[OF wf] by (cases "internals s") (auto simp: begin'_def)
  have ne: "addr s \<noteq> e" using addr_neq_of_distinct[OF d] by simp
  have cl: "climb_right h (addr s) (root t) = Some (root t)"
    using climb_right_stop[OF n(1), of "addr s"] n(4) ne by simp
  have e0: "iterate h (root t) (root t) = Some []" by (subst iterate.simps) simp
  have "root t \<notin> set (internals s)" using d internals_subset[of s] by auto
  moreover have "distinct (addrs s)" using d by simp
  ultimately have "iterate h (root t) (hd (internals s @ [root t])) = Some (entries h s @ [])"
    using iterate_subtree[OF s _ _ cl e0] by blast
  then show ?thesis using b by (simp add: traverse_def end'_def)
qed


lemma wf_node_live:
  "wft h p s \<Longrightarrow> a \<in> set (addrs s) \<Longrightarrow> \<exists>n. deref h a = Some n \<and> entry h a = value' n"
proof (induction s arbitrary: p)
  case (Leaf x)
  then show ?case by (auto simp: entry_def split: option.splits dest: deref_Some_cells)
next
  case (Node l x r)
  from Node.prems(1) obtain n where "deref h x = Some n" "entry h x = value' n" "wft h x l" "wft h x r"
    by (rule wf_NodeD)
  then show ?case using Node.IH Node.prems(2) by auto
qed

lemma get_value_internal:
  "wft h p s \<Longrightarrow> a \<in> set (internals s) \<Longrightarrow> get_value h a = Some (entry h a)"
proof -
  assume w: "wft h p s" and a: "a \<in> set (internals s)"
  then have "a \<in> set (addrs s)" using internals_subset[of s] by auto
  from wf_node_live[OF w this] show ?thesis by (auto simp: get_value_def)
qed

lemma internals_descend:
  "descend h k c s = (c', s') \<Longrightarrow> set (internals s') \<subseteq> set (internals s)"
  by (induction s arbitrary: c) (auto split: if_splits)

lemma finder_inv:
  assumes "tree_inv h t s e"
  shows "finder h t k = Some (addr (snd (descend h k [L (root t) (Leaf e)] s)))"
proof -
  from assms have wf: "wft h 0 (Node s (root t) (Leaf e))" by (simp add: tree_inv_def)
  from wf obtain n where n: "deref h (root t) = Some n" "left n = addr s" and s: "wft h (root t) s"
    by (rule wf_NodeD)
  show ?thesis using n finder_loop_descend[OF s] by (simp add: finder_def get_left_def)
qed

lemma descend_wf:
  assumes "wft h p (plug c s)" "descend h k c s = (c', s')"
  shows "wft h (hole_parent p c') s'" "wfc h p c' (addr s')"
proof -
  have "wft h p (plug c' s')" using assms plug_descend[OF assms(2)] by simp
  then show "wft h (hole_parent p c') s'" "wfc h p c' (addr s')" by (simp_all add: wf_plug)
qed


lemma count'_inv:
  assumes "tree_inv h t s e"
  shows "count' h t k = Some (if k \<in> set (keys h s) then 1 else 0)"
proof -
  obtain c' s' where d: "descend h k [L (root t) (Leaf e)] s = (c', s')" by force
  from assms have "wft h 0 (plug [L (root t) (Leaf e)] s)" and so: "sorted_wrt (<) (keys h s)"
    by (simp_all add: tree_inv_def)
  from descend_wf(1)[OF this(1) d] have w: "wft h (hole_parent 0 c') s'" .
  show ?thesis
  proof (cases s')
    case (Leaf x)
    from w[unfolded Leaf] obtain n where "deref h x = Some n" "is_external n" by (rule wf_LeafD)
    moreover have "k \<notin> set (keys h s)"
      using descend_result[OF so, of k "[L (root t) (Leaf e)]"] d Leaf by simp
    ultimately show ?thesis using finder_inv[OF assms, of k] d Leaf
      by (simp add: count'_def is_internal_def)
  next
    case (Node l a r)
    from w[unfolded Node] obtain n where "deref h a = Some n" "is_internal n" by (rule wf_NodeD)
    moreover have "k \<in> set (keys h s)"
      using descend_result[OF so, of k "[L (root t) (Leaf e)]"] d Node by (auto simp: keys_set)
    ultimately show ?thesis using finder_inv[OF assms, of k] d Node
      by (simp add: count'_def)
  qed
qed







lemma cells_free [simp]: "cells (free h p) = (cells h)(p := None)"
  by (simp add: free_def)

lemma fresh_free [simp]: "fresh (free h p) = fresh h"
  by (simp add: free_def)

lemma delete_node_null [simp]: "delete_node h 0 = Some h"
  by (subst delete_node.simps) simp



section \<open>Removal\<close>

lemma wf_cong_links:
  "(\<And>a. a \<in> set (addrs s) \<Longrightarrow> map_option links (deref h' a) = map_option links (deref h a)) \<Longrightarrow>
   wft h' p s = wft h p s"
proof (induction s arbitrary: p)
  case (Leaf x)
  from Leaf[of x] show ?case by (auto simp: links_def split: option.splits)
next
  case (Node l x r)
  have "wft h' x l = wft h x l" "wft h' x r = wft h x r"
    using Node.prems by (auto intro!: Node.IH)
  moreover have "map_option links (deref h' x) = map_option links (deref h x)"
    using Node.prems by simp
  ultimately show ?case by (auto simp: links_def split: option.splits)
qed

lemma wfc_cong_links:
  "(\<And>a. a \<in> set (before_hole c @ after_hole c) \<Longrightarrow>
      map_option links (deref h' a) = map_option links (deref h a)) \<Longrightarrow>
   wfc h' p c x = wfc h p c x"
proof (induction c arbitrary: x)
  case Nil
  then show ?case by simp
next
  case (Cons f c)
  show ?case
  proof (cases f)
    case (L a r)
    have 1: "map_option links (deref h' a) = map_option links (deref h a)" using Cons.prems L by simp
    have 2: "wft h' a r = wft h a r" using Cons.prems L by (intro wf_cong_links) auto
    have 3: "wfc h' p c a = wfc h p c a" using Cons.prems L by (intro Cons.IH) auto
    show ?thesis using 1 2 3 L by (auto simp: links_def split: option.splits)
  next
    case (R l a)
    have 1: "map_option links (deref h' a) = map_option links (deref h a)" using Cons.prems R by simp
    have 2: "wft h' a l = wft h a l" using Cons.prems R by (intro wf_cong_links) auto
    have 3: "wfc h' p c a = wfc h p c a" using Cons.prems R by (intro Cons.IH) auto
    show ?thesis using 1 2 3 R by (auto simp: links_def split: option.splits)
  qed
qed

lemma wft_reparent:
  assumes "wft h q s" "distinct (addrs s)"
    "map_option links (deref h' (addr s)) = map_option (\<lambda>n. (q', left n, right n)) (deref h (addr s))"
    "\<And>b. b \<in> set (addrs s) \<Longrightarrow> b \<noteq> addr s \<Longrightarrow> map_option links (deref h' b) = map_option links (deref h b)"
  shows "wft h' q' s"
proof (cases s)
  case (Leaf x)
  then show ?thesis using assms(1,3) by (auto simp: links_def split: option.splits)
next
  case (Node l x r)
  have "wft h' x l = wft h x l" "wft h' x r = wft h x r"
    using assms(2,4) Node by (auto intro!: wf_cong_links)
  then show ?thesis using assms(1,3) Node by (auto simp: links_def split: option.splits)
qed

lemma delete_leaf:
  "deref h a = Some n \<Longrightarrow> left n = 0 \<Longrightarrow> right n = 0 \<Longrightarrow> delete_node h a = Some (free h a)"
  by (subst delete_node.simps) (auto simp: get_left_def get_right_def dest: deref_Some_nonnull)

lemma rae_local:
  assumes "deref h w = Some wn" "left wn = 0" "right wn = 0" "parent wn = par"
    "deref h par = Some pn" "parent pn = gpar" "deref h gpar = Some gn"
    "sib = (if w = left pn then right pn else left pn)" "deref h sib = Some sn"
    "distinct [w, par, gpar, sib]"
  shows "\<exists>h'. remove_above_external h w = Some (h', sib) \<and> fresh h' = fresh h \<and>
    (\<forall>b. cells h' b =
       (if b = w \<or> b = par then None
        else if b = gpar then Some (if par = left gn then gn\<lparr>left := sib\<rparr> else gn\<lparr>right := sib\<rparr>)
        else if b = sib then Some (sn\<lparr>parent := gpar\<rparr>)
        else cells h b))"
proof -
  have nz: "w \<noteq> 0" "par \<noteq> 0" "gpar \<noteq> 0" "sib \<noteq> 0"
    using assms(1,5,7,9) by (auto dest: deref_Some_nonnull)
  define g' where "g' = (if par = left gn then gn\<lparr>left := sib\<rparr> else gn\<lparr>right := sib\<rparr>)"
  define h1 where "h1 = store h gpar g'"
  define h2 where "h2 = store h1 sib (sn\<lparr>parent := gpar\<rparr>)"
  define h3 where "h3 = store h2 par (pn\<lparr>right := 0\<rparr>)"
  define h4 where "h4 = store h3 par (pn\<lparr>right := 0, left := 0\<rparr>)"
  have s1: "(if par = left gn then set_left h gpar sib else set_right h gpar sib) = Some h1"
    using assms(7) by (simp add: h1_def g'_def set_left_def set_right_def)
  have s2: "set_parent h1 sib gpar = Some h2"
    using assms nz by (simp add: h2_def h1_def set_parent_def)
  have s3: "set_right h2 par 0 = Some h3"
    using assms nz by (simp add: h3_def h2_def h1_def set_right_def)
  have s4: "set_left h3 par 0 = Some h4"
    using assms nz by (simp add: h4_def h3_def set_left_def)
  have d5: "delete_node h4 w = Some (free h4 w)"
    using assms nz by (intro delete_leaf[where n=wn]) (simp_all add: h4_def h3_def h2_def h1_def)
  have d6: "delete_node (free h4 w) par = Some (free (free h4 w) par)"
    using assms nz
    by (intro delete_leaf[where n="pn\<lparr>right := 0, left := 0\<rparr>"])
       (simp_all add: h4_def deref_def)
  have g1: "get_parent h w = Some par" using assms(1,4) by (simp add: get_parent_def)
  have g2: "get_left h par = Some (left pn)" using assms(5) by (simp add: get_left_def)
  have g3: "(if w = left pn then get_right h par else Some (left pn)) = Some sib"
    using assms(5,8) by (simp add: get_left_def get_right_def)
  have g4: "get_parent h par = Some gpar" using assms(5,6) by (simp add: get_parent_def)
  have g5: "get_left h gpar = Some (left gn)" using assms(7) by (simp add: get_left_def)
  have "remove_above_external h w = Some (free (free h4 w) par, sib)"
    by (simp only: remove_above_external_def g1 g2 g3 g4 g5 s1 s2 s3 s4 d5 d6 Option.bind.bind_lunit)
  moreover have "fresh (free (free h4 w) par) = fresh h"
    by (simp add: h4_def h3_def h2_def h1_def)
  moreover have "\<forall>b. cells (free (free h4 w) par) b =
       (if b = w \<or> b = par then None
        else if b = gpar then Some g'
        else if b = sib then Some (sn\<lparr>parent := gpar\<rparr>)
        else cells h b)"
    using assms(10) by (auto simp: h4_def h3_def h2_def h1_def)
  ultimately show ?thesis unfolding g'_def by blast
qed


lemma hole_parent_Cons [simp]: "hole_parent p (F # c) = frame_addr F"
  by (cases F) auto

lemma before_after_Cons:
  "set (before_hole (F # c) @ after_hole (F # c)) =
   insert (frame_addr F) (set (addrs (frame_other F)) \<union> set (before_hole c @ after_hole c))"
  by (cases F) auto

lemma wfc_ConsD:
  assumes "wfc h p (F # c) x"
  obtains n where "deref h (frame_addr F) = Some n" "parent n = hole_parent p c"
    "wft h (frame_addr F) (frame_other F)" "wfc h p c (frame_addr F)"
    "case F of L a r \<Rightarrow> left n = x \<and> right n = addr r | R l a \<Rightarrow> left n = addr l \<and> right n = x"
  using assms by (cases F) (auto split: option.splits)

lemma wfc_rehole:
  assumes "wfc h p (F # c) x" "deref h (frame_addr F) = Some gn"
    "deref h' (frame_addr F) = Some (if x = left gn then gn\<lparr>left := y\<rparr> else gn\<lparr>right := y\<rparr>)"
    "x \<notin> set (addrs (frame_other F))"
    "\<And>b. b \<in> set (addrs (frame_other F)) \<union> set (before_hole c @ after_hole c) \<Longrightarrow>
        map_option links (deref h' b) = map_option links (deref h b)"
  shows "wfc h' p (F # c) y"
proof -
  have o: "wft h' (frame_addr F) (frame_other F) = wft h (frame_addr F) (frame_other F)"
    using assms(5) by (intro wf_cong_links) auto
  have c: "wfc h' p c (frame_addr F) = wfc h p c (frame_addr F)"
    using assms(5) by (intro wfc_cong_links) auto
  show ?thesis
  proof (cases F)
    case (L a r)
    then show ?thesis using assms(1,2,3) o c by (auto split: option.splits)
  next
    case (R l a)
    have "x \<noteq> addr l" using assms(4) R addr_in_addrs[of l] by auto
    then show ?thesis using assms(1,2,3) o c R by (auto split: option.splits)
  qed
qed

lemma rae_shape:
  assumes wf: "wft h p (plug (F1 # F2 # c) (Leaf w))"
    and d: "distinct (addrs (plug (F1 # F2 # c) (Leaf w)))"
  shows "\<exists>h'. remove_above_external h w = Some (h', addr (frame_other F1)) \<and> fresh h' = fresh h \<and>
    wft h' p (plug (F2 # c) (frame_other F1)) \<and>
    (\<forall>b. b \<noteq> w \<longrightarrow> b \<noteq> frame_addr F1 \<longrightarrow> map_option value' (cells h' b) = map_option value' (cells h b))"
proof -
  let ?par = "frame_addr F1" and ?gpar = "frame_addr F2" and ?s = "frame_other F1"
  from wf have w: "wft h ?par (Leaf w)" and c1: "wfc h p (F1 # F2 # c) w"
    by (simp_all add: wf_plug)
  from w obtain wn where wn: "deref h w = Some wn" "parent wn = ?par" "left wn = 0" "right wn = 0"
    by (rule wf_LeafD)
  from c1 obtain pn where pn: "deref h ?par = Some pn" "parent pn = ?gpar"
    "wft h ?par ?s" and c2: "wfc h p (F2 # c) ?par"
    and ch: "case F1 of L a r \<Rightarrow> left pn = w \<and> right pn = addr r | R l a \<Rightarrow> left pn = addr l \<and> right pn = w"
    by (rule wfc_ConsD) auto
  from c2 obtain gn where gn: "deref h ?gpar = Some gn"
    by (rule wfc_ConsD)
  have dd: "distinct (before_hole c @ after_hole c)" 
    "distinct (addrs ?s)" "distinct (addrs (frame_other F2))"
    "w \<notin> set (addrs ?s)" "?par \<notin> set (addrs ?s)" "?gpar \<notin> set (addrs ?s)"
    "w \<noteq> ?par" "w \<noteq> ?gpar" "?par \<noteq> ?gpar"
    "w \<notin> set (addrs (frame_other F2))" "?par \<notin> set (addrs (frame_other F2))"
    "?gpar \<notin> set (addrs (frame_other F2))"
    "set (addrs ?s) \<inter> set (addrs (frame_other F2)) = {}"
    "w \<notin> set (before_hole c @ after_hole c)" "?par \<notin> set (before_hole c @ after_hole c)"
    "?gpar \<notin> set (before_hole c @ after_hole c)"
    "set (addrs ?s) \<inter> set (before_hole c @ after_hole c) = {}"
    using d by (cases F1; cases F2; auto simp: addrs_plug)+
  have sa: "addr ?s \<in> set (addrs ?s)" by (rule addr_in_addrs)
  have sib: "addr ?s = (if w = left pn then right pn else left pn)"
    using ch dd(4) sa by (cases F1) auto
  from pn(3) obtain sn where sn: "deref h (addr ?s) = Some sn" "parent sn = ?par"
    by (cases ?s) (auto split: option.splits)
  have "distinct [w, ?par, ?gpar, addr ?s]" using dd sa by auto
  from rae_local[OF wn(1,3,4,2) pn(1,2) gn sib sn(1) this]
  obtain h' where h': "remove_above_external h w = Some (h', addr ?s)" "fresh h' = fresh h"
    and cells: "\<forall>b. cells h' b =
       (if b = w \<or> b = ?par then None
        else if b = ?gpar then Some (if ?par = left gn then gn\<lparr>left := addr ?s\<rparr> else gn\<lparr>right := addr ?s\<rparr>)
        else if b = addr ?s then Some (sn\<lparr>parent := ?gpar\<rparr>)
        else cells h b)" by blast
  have nz: "?gpar \<noteq> 0" "addr ?s \<noteq> 0" using gn sn by (auto dest: deref_Some_nonnull)
  have same: "\<And>b. b \<noteq> w \<Longrightarrow> b \<noteq> ?par \<Longrightarrow> b \<noteq> ?gpar \<Longrightarrow> b \<noteq> addr ?s \<Longrightarrow> deref h' b = deref h b"
    using cells by (simp add: deref_def)
  have ws: "wft h' ?gpar ?s"
  proof (rule wft_reparent[OF pn(3) dd(2)])
    have "deref h' (addr ?s) = Some (sn\<lparr>parent := ?gpar\<rparr>)"
      using cells nz dd sa by (auto simp: deref_def)
    then show "map_option links (deref h' (addr ?s)) =
      map_option (\<lambda>n. (?gpar, left n, right n)) (deref h (addr ?s))"
      using sn(1) by (simp add: links_def)
  next
    fix b assume "b \<in> set (addrs ?s)" "b \<noteq> addr ?s"
    then have "deref h' b = deref h b" using dd by (intro same) auto
    then show "map_option links (deref h' b) = map_option links (deref h b)" by simp
  qed
  have wc: "wfc h' p (F2 # c) (addr ?s)"
  proof (rule wfc_rehole[OF c2 gn])
    show "deref h' ?gpar = Some (if ?par = left gn then gn\<lparr>left := addr ?s\<rparr> else gn\<lparr>right := addr ?s\<rparr>)"
      using cells nz dd by (auto simp: deref_def)
    show "?par \<notin> set (addrs (frame_other F2))" by (rule dd)
  next
    fix b assume "b \<in> set (addrs (frame_other F2)) \<union> set (before_hole c @ after_hole c)"
    then have "deref h' b = deref h b" using dd sa by (intro same) auto
    then show "map_option links (deref h' b) = map_option links (deref h b)" by simp
  qed
  have "wft h' p (plug (F2 # c) ?s)" using ws wc by (simp add: wf_plug)
  moreover have "\<forall>b. b \<noteq> w \<longrightarrow> b \<noteq> ?par \<longrightarrow> map_option value' (cells h' b) = map_option value' (cells h b)"
    using cells gn sn by (auto dest: deref_Some_cells)
  ultimately show ?thesis using h' by blast
qed


lemma plug_append: "plug (d @ c) s = plug c (plug d s)"
proof (induction d arbitrary: s)
  case Nil
  then show ?case by simp
next
  case (Cons f d)
  then show ?case by (cases f) auto
qed

lemma hole_append [simp]:
  "before_hole (d @ c) = before_hole c @ before_hole d"
  "after_hole (d @ c) = after_hole d @ after_hole c"
  "internals_before (d @ c) = internals_before c @ internals_before d"
  "internals_after (d @ c) = internals_after d @ internals_after c"
proof (induction d)
  case Nil
  { case 1 show ?case by simp }
  { case 2 show ?case by simp }
  { case 3 show ?case by simp }
  { case 4 show ?case by simp }
next
  case (Cons f d)
  { case 1 show ?case using Cons(1) by (cases f) auto }
  { case 2 show ?case using Cons(2) by (cases f) auto }
  { case 3 show ?case using Cons(3) by (cases f) auto }
  { case 4 show ?case using Cons(4) by (cases f) auto }
qed

lemma leftmost_position:
  "\<exists>dm w m mr. Node l a r = plug dm (Node (Leaf w) m mr) \<and> internals_before dm = [] \<and>
     m = hd (internals (Node l a r))"
proof (induction l arbitrary: a r)
  case (Leaf w)
  have "Node (Leaf w) a r = plug [] (Node (Leaf w) a r) \<and> internals_before [] = [] \<and>
     a = hd (internals (Node (Leaf w) a r))" by simp
  then show ?case by blast
next
  case (Node ll la lr)
  from Node.IH(1)[of la lr] obtain dm w m mr where
    1: "Node ll la lr = plug dm (Node (Leaf w) m mr)" "internals_before dm = []"
       "m = hd (internals (Node ll la lr))" by blast
  have "Node (Node ll la lr) a r = plug (dm @ [L a r]) (Node (Leaf w) m mr)"
    using 1(1) by (simp add: plug_append)
  moreover have "internals_before (dm @ [L a r]) = []" using 1(2) by simp
  moreover have "m = hd (internals (Node (Node ll la lr) a r))" using 1(3) by (cases "internals ll") auto
  ultimately show ?case by blast
qed

lemma internal_position:
  "a \<in> set (internals s) \<Longrightarrow> \<exists>d l r. s = plug d (Node l a r)"
proof (induction s)
  case (Leaf x)
  then show ?case by simp
next
  case (Node l x r)
  consider "a = x" | "a \<in> set (internals l)" | "a \<in> set (internals r)"
    using Node.prems by auto
  then show ?case
  proof cases
    case 1
    have "Node l x r = plug [] (Node l a r)" using 1 by simp
    then show ?thesis by blast
  next
    case 2
    from Node.IH(1)[OF 2] obtain d l' r' where "l = plug d (Node l' a r')" by blast
    then have "Node l x r = plug (d @ [L x r]) (Node l' a r')" by (simp add: plug_append)
    then show ?thesis by blast
  next
    case 3
    from Node.IH(2)[OF 3] obtain d l' r' where "r = plug d (Node l' a r')" by blast
    then have "Node l x r = plug (d @ [R l x]) (Node l' a r')" by (simp add: plug_append)
    then show ?thesis by blast
  qed
qed

lemma replace_live:
  "deref h a = Some n \<Longrightarrow> replace h a v = Some (store h a (n\<lparr>value' := v\<rparr>))"
  by (simp add: replace_def)


lemma entry_cong: "map_option value' (cells h' b) = map_option value' (cells h b) \<Longrightarrow> entry h' b = entry h b"
  by (cases "cells h b"; cases "cells h' b") (auto simp: entry_def)

lemma eraser_unfold_left:
  assumes "deref h a = Some n" "deref h (left n) = Some ln" "is_external ln"
    "remove_above_external h (left n) = Some (h', s)"
  shows "eraser h t a = Some (h', t\<lparr>sz := (if sz t = 0 then 2 ^ 64 - 1 else sz t - 1)\<rparr>, s)"
  using assms by (simp add: eraser_def get_left_def)

lemma eraser_unfold_right:
  assumes "deref h a = Some n" "deref h (left n) = Some ln" "\<not> is_external ln"
    "deref h (right n) = Some rn" "is_external rn"
    "remove_above_external h (right n) = Some (h', s)"
  shows "eraser h t a = Some (h', t\<lparr>sz := (if sz t = 0 then 2 ^ 64 - 1 else sz t - 1)\<rparr>, s)"
  using assms by (simp add: eraser_def get_left_def get_right_def)

lemma eraser_unfold_both:
  assumes "deref h a = Some n" "deref h (left n) = Some ln" "\<not> is_external ln"
    "deref h (right n) = Some rn" "\<not> is_external rn"
    "inorder_next h a = Some m" "get_value h m = Some v" "replace h a v = Some hr"
    "get_left hr m = Some w"
    "remove_above_external hr w = Some (h', s)"
  shows "eraser h t a = Some (h', t\<lparr>sz := (if sz t = 0 then 2 ^ 64 - 1 else sz t - 1)\<rparr>, s)"
proof -
  have "get_left h a = Some (left n)" "get_right h a = Some (right n)"
    using assms(1) by (simp_all add: get_left_def get_right_def)
  then show ?thesis using assms(2-) by (simp add: eraser_def)
qed

lemma eraser_shape:
  assumes wf: "wft h p (plug (F # c) (Node l a r))"
    and d: "distinct (addrs (plug (F # c) (Node l a r)))"
  shows "\<exists>h' res s'.
     eraser h t a = Some (h', t\<lparr>sz := (if sz t = 0 then 2 ^ 64 - 1 else sz t - 1)\<rparr>, res) \<and>
     fresh h' = fresh h \<and> wft h' p (plug (F # c) s') \<and>
     set (addrs s') \<subseteq> set (addrs (Node l a r)) \<and> distinct (addrs s') \<and>
     map (entry h') (internals s') = entries h l @ entries h r \<and>
     (\<forall>b. b \<notin> set (addrs (Node l a r)) \<longrightarrow>
          map_option value' (cells h' b) = map_option value' (cells h b))"
proof -
  from wf have wn: "wft h (frame_addr F) (Node l a r)" by (simp add: wf_plug)
  from wn obtain n where n: "deref h a = Some n" "left n = addr l" "right n = addr r"
    and wl: "wft h a l" and wr: "wft h a r"
    by (rule wf_NodeD)
  have dn: "distinct (addrs (Node l a r))" using d by (auto simp: addrs_plug)
  have il: "set (internals l) \<subseteq> set (addrs l)" and ir: "set (internals r) \<subseteq> set (addrs r)"
    by (rule internals_subset)+
  show ?thesis
  proof (cases l)
    case (Leaf w)
    from wl[unfolded Leaf] obtain ln where ln: "deref h w = Some ln" "is_external ln"
      by (rule wf_LeafD)
    have wf': "wft h p (plug (L a r # F # c) (Leaf w))" and d': "distinct (addrs (plug (L a r # F # c) (Leaf w)))"
      using wf d Leaf by simp_all
    from rae_shape[OF wf' d'] obtain h' where h': "remove_above_external h w = Some (h', addr r)"
      "fresh h' = fresh h" "wft h' p (plug (F # c) r)"
      "\<forall>b. b \<noteq> w \<longrightarrow> b \<noteq> a \<longrightarrow> map_option value' (cells h' b) = map_option value' (cells h b)"
      by auto
    have e: "eraser h t a = Some (h', t\<lparr>sz := (if sz t = 0 then 2 ^ 64 - 1 else sz t - 1)\<rparr>, addr r)"
      using n ln h'(1) Leaf by (intro eraser_unfold_left[where n=n and ln=ln]) simp_all
    have "map (entry h') (internals r) = map (entry h) (internals r)"
      using h'(4) dn ir Leaf by (intro map_cong refl entry_cong) auto
    then have "map (entry h') (internals r) = entries h l @ entries h r"
      using Leaf by (simp add: entries_def)
    moreover have "\<forall>b. b \<notin> set (addrs (Node l a r)) \<longrightarrow>
          map_option value' (cells h' b) = map_option value' (cells h b)"
      using h'(4) Leaf by auto
    ultimately show ?thesis using e h'(2,3) dn by (intro exI[of _ h'] exI[of _ "addr r"] exI[of _ r]) auto
  next
    case lN: (Node ll la lr)
    from wl[unfolded lN] obtain ln where ln: "deref h la = Some ln" "is_internal ln"
      by (rule wf_NodeD)
    show ?thesis
    proof (cases r)
      case (Leaf w)
      from wr[unfolded Leaf] obtain rn where rn: "deref h w = Some rn" "is_external rn"
        by (rule wf_LeafD)
      have wf': "wft h p (plug (R l a # F # c) (Leaf w))" and d': "distinct (addrs (plug (R l a # F # c) (Leaf w)))"
        using wf d Leaf by simp_all
      from rae_shape[OF wf' d'] obtain h' where h': "remove_above_external h w = Some (h', addr l)"
        "fresh h' = fresh h" "wft h' p (plug (F # c) l)"
        "\<forall>b. b \<noteq> w \<longrightarrow> b \<noteq> a \<longrightarrow> map_option value' (cells h' b) = map_option value' (cells h b)"
        by auto
      have e: "eraser h t a = Some (h', t\<lparr>sz := (if sz t = 0 then 2 ^ 64 - 1 else sz t - 1)\<rparr>, addr l)"
        using n ln rn h'(1) Leaf lN
        by (intro eraser_unfold_right[where n=n and ln=ln and rn=rn]) (simp_all add: is_internal_def)
      have "map (entry h') (internals l) = map (entry h) (internals l)"
        using h'(4) dn il Leaf by (intro map_cong refl entry_cong) auto
      then have "map (entry h') (internals l) = entries h l @ entries h r"
        using Leaf by (simp add: entries_def)
      moreover have "\<forall>b. b \<notin> set (addrs (Node l a r)) \<longrightarrow>
          map_option value' (cells h' b) = map_option value' (cells h b)"
        using h'(4) Leaf by auto
      ultimately show ?thesis using e h'(2,3) dn by (intro exI[of _ h'] exI[of _ "addr l"] exI[of _ l]) auto
    next
      case rN: (Node rl ra rr)
      from wr[unfolded rN] obtain rn where rn: "deref h ra = Some rn" "is_internal rn"
        by (rule wf_NodeD)
      from leftmost_position[of rl ra rr] obtain dm w m mr where
        pos: "r = plug dm (Node (Leaf w) m mr)" "internals_before dm = []" "m = hd (internals r)"
        using rN by auto
      have mr_in: "m \<in> set (internals r)" using pos(3) rN by (cases "internals rl") auto
      have nx: "inorder_next h a = Some m"
      proof -
        have "leftmost h (addr r) = Some (hd (internals r @ [a]))" by (rule leftmost_wf[OF wr])
        moreover have "hd (internals r @ [a]) = m" using pos(3) rN by (cases "internals rl") auto
        ultimately show ?thesis using n rn rN by (simp add: inorder_next_def get_right_def)
      qed
      have gv: "get_value h m = Some (entry h m)" by (rule get_value_internal[OF wr mr_in])
      define h1 where "h1 = store h a (n\<lparr>value' := entry h m\<rparr>)"
      have rp: "replace h a (entry h m) = Some h1" using n(1) by (simp add: h1_def replace_def)
      have anz: "a \<noteq> 0" using n(1) by (rule deref_Some_nonnull)
      have l1: "\<And>b. map_option links (deref h1 b) = map_option links (deref h b)"
        using n(1) anz by (simp add: h1_def links_def)
      have ma: "m \<noteq> a" using mr_in ir dn by auto
      have wf1: "wft h1 p (plug (F # c) (Node l a r))"
        using wf wf_cong_links[of "plug (F # c) (Node l a r)" h1 h p] l1 by simp
      have eq: "plug (F # c) (Node l a r) = plug (L m mr # dm @ R l a # F # c) (Leaf w)"
        using pos(1) by (simp add: plug_append)
      obtain F2 c' where fc: "dm @ R l a # F # c = F2 # c'" by (cases dm) auto
      have wf1': "wft h1 p (plug (L m mr # F2 # c') (Leaf w))" using wf1 eq fc by simp
      have d1': "distinct (addrs (plug (L m mr # F2 # c') (Leaf w)))" using d eq fc by simp
      from rae_shape[OF wf1' d1'] obtain h' where h': "remove_above_external h1 w = Some (h', addr mr)"
        "fresh h' = fresh h1" "wft h' p (plug (F2 # c') mr)"
        "\<forall>b. b \<noteq> w \<longrightarrow> b \<noteq> m \<longrightarrow> map_option value' (cells h' b) = map_option value' (cells h1 b)"
        by auto
      have "wft h1 (hole_parent p (dm @ R l a # F # c)) (Node (Leaf w) m mr)"
        using wf1 eq by (simp add: wf_plug del: hole_parent_Cons)
      then obtain mn where "deref h1 m = Some mn" "left mn = w" by (rule wf_NodeD) auto
      then have gl: "get_left h1 m = Some w" by (simp add: get_left_def)
      have e: "eraser h t a = Some (h', t\<lparr>sz := (if sz t = 0 then 2 ^ 64 - 1 else sz t - 1)\<rparr>, addr mr)"
        using n ln rn lN rN nx gv rp gl h'(1)
        by (intro eraser_unfold_both[where n=n and ln=ln and rn=rn and m=m and w=w and hr=h1 and v="entry h m"])
           (simp_all add: is_internal_def)
      let ?s' = "Node l a (plug dm mr)"
      have w3: "wft h' p (plug (F # c) ?s')" using h'(3) fc[symmetric] by (simp add: plug_append)
      have ar: "addrs r = before_hole dm @ w # m # addrs mr @ after_hole dm"
        using pos(1) by (simp add: addrs_plug)
      have sub: "set (addrs ?s') \<subseteq> set (addrs (Node l a r))" using ar by (auto simp: addrs_plug)
      have dis: "distinct (addrs ?s')" using dn ar by (auto simp: addrs_plug)
      have intr: "internals r = m # internals mr @ internals_after dm"
        using pos(1,2) by (simp add: internals_plug)
      have wm: "w \<notin> set (internals l)" "m \<notin> set (internals l)" "w \<noteq> a"
        "w \<notin> set (internals mr @ internals_after dm)" "m \<notin> set (internals mr @ internals_after dm)"
        "a \<notin> set (internals l)" "a \<notin> set (internals mr @ internals_after dm)"
      proof -
        have "set (internals mr) \<subseteq> set (addrs mr)" by (rule internals_subset)
        moreover have "set (internals_after dm) \<subseteq> set (after_hole dm)"
        proof (induction dm)
          case Nil
          then show ?case by simp
        next
          case (Cons f dm)
          then show ?case using internals_subset by (cases f) auto
        qed
        ultimately show "w \<notin> set (internals l)" "m \<notin> set (internals l)" "w \<noteq> a"
        "w \<notin> set (internals mr @ internals_after dm)" "m \<notin> set (internals mr @ internals_after dm)"
        "a \<notin> set (internals l)" "a \<notin> set (internals mr @ internals_after dm)"
          using dn ar il by auto
      qed
      have v1: "\<And>b. b \<noteq> a \<Longrightarrow> cells h1 b = cells h b" by (simp add: h1_def)
      have ea: "entry h' a = entry h m"
      proof -
        have "map_option value' (cells h' a) = map_option value' (cells h1 a)" using h'(4) wm(3) ma by auto
        then have "entry h' a = entry h1 a" by (rule entry_cong)
        then show ?thesis by (simp add: h1_def entry_def)
      qed
      have eo: "\<And>b. b \<noteq> w \<Longrightarrow> b \<noteq> m \<Longrightarrow> b \<noteq> a \<Longrightarrow> entry h' b = entry h b"
        using h'(4) v1 by (intro entry_cong) simp
      have "map (entry h') (internals l) = map (entry h) (internals l)"
        using wm by (intro map_cong refl eo) auto
      moreover have "map (entry h') (internals mr @ internals_after dm) = map (entry h) (internals mr @ internals_after dm)"
        using wm by (intro map_cong refl eo) auto
      ultimately have "map (entry h') (internals ?s') = entries h l @ entries h r"
        using ea intr pos(2) by (simp add: entries_def internals_plug)
      moreover have "\<forall>b. b \<notin> set (addrs (Node l a r)) \<longrightarrow>
          map_option value' (cells h' b) = map_option value' (cells h b)"
        using h'(4) v1 ar by auto
      moreover have "fresh h' = fresh h" using h'(2) by (simp add: h1_def)
      ultimately show ?thesis using e w3 sub dis
        by (intro exI[of _ h'] exI[of _ "addr mr"] exI[of _ ?s']) simp
    qed
  qed
qed


lemma internals_hole_subset:
  "set (internals_before c) \<subseteq> set (before_hole c)" "set (internals_after c) \<subseteq> set (after_hole c)"
proof (induction c)
  case Nil
  { case 1 show ?case by simp }
  { case 2 show ?case by simp }
next
  case (Cons f c)
  { case 1 show ?case using Cons(1) internals_subset by (cases f) auto }
  { case 2 show ?case using Cons(2) internals_subset by (cases f) auto }
qed

lemma tree_inv_plug:
  "tree_inv h t s e =
     (wft h 0 (plug [L (root t) (Leaf e)] s) \<and>
      distinct (addrs (plug [L (root t) (Leaf e)] s)) \<and>
      list_all (\<lambda>a. a < fresh h) (addrs (plug [L (root t) (Leaf e)] s)) \<and>
      sorted_wrt (<) (keys h s) \<and> sz t = length (internals s))"
  by (simp add: tree_inv_def)

lemma eraser_inv:
  assumes inv: "tree_inv h t s e" and a: "a \<in> set (internals s)"
  shows "\<exists>h' res s'. eraser h t a = Some (h', t\<lparr>sz := sz t - 1\<rparr>, res) \<and>
     tree_inv h' (t\<lparr>sz := sz t - 1\<rparr>) s' e \<and> fresh h' = fresh h \<and>
     (\<exists>xs ys. entries h s = xs @ entry h a # ys \<and> entries h' s' = xs @ ys)"
proof -
  let ?F0 = "L (root t) (Leaf e)"
  from internal_position[OF a] obtain d l r where s: "s = plug d (Node l a r)" by blast
  obtain F c where fc: "d @ [?F0] = F # c" by (cases d) auto
  have W: "plug [?F0] s = plug (F # c) (Node l a r)"
    using s plug_append[of d "[?F0]" "Node l a r"] fc by simp
  from inv have wf: "wft h 0 (plug (F # c) (Node l a r))"
    and dist: "distinct (addrs (plug (F # c) (Node l a r)))"
    and bound: "list_all (\<lambda>a. a < fresh h) (addrs (plug (F # c) (Node l a r)))"
    and sorted: "sorted_wrt (<) (keys h s)" and sz: "sz t = length (internals s)"
    unfolding tree_inv_plug W by auto
  from eraser_shape[OF wf dist, of t] obtain h' res s1 where
    e: "eraser h t a = Some (h', t\<lparr>sz := (if sz t = 0 then 2 ^ 64 - 1 else sz t - 1)\<rparr>, res)"
    and fr: "fresh h' = fresh h" and wf': "wft h' 0 (plug (F # c) s1)"
    and sub: "set (addrs s1) \<subseteq> set (addrs (Node l a r))" and d1: "distinct (addrs s1)"
    and ent: "map (entry h') (internals s1) = entries h l @ entries h r"
    and frame: "\<forall>b. b \<notin> set (addrs (Node l a r)) \<longrightarrow>
          map_option value' (cells h' b) = map_option value' (cells h b)"
    by blast
  let ?s' = "plug d s1"
  have W': "plug [?F0] ?s' = plug (F # c) s1"
    using plug_append[of d "[?F0]" s1] fc by simp
  have szpos: "sz t \<noteq> 0" using sz a by (cases "internals s") auto
  have e': "eraser h t a = Some (h', t\<lparr>sz := sz t - 1\<rparr>, res)" using e szpos by simp
  have dist': "distinct (addrs (plug (F # c) s1))"
    using dist sub d1 unfolding addrs_plug by auto
  have bound': "list_all (\<lambda>a. a < fresh h') (addrs (plug (F # c) s1))"
    using bound sub fr unfolding addrs_plug list_all_iff by auto
  have out: "\<And>b. b \<in> set (before_hole d @ after_hole d) \<Longrightarrow> entry h' b = entry h b"
  proof (rule entry_cong)
    fix b assume "b \<in> set (before_hole d @ after_hole d)"
    moreover have "distinct (addrs s)" using inv by (simp add: tree_inv_def)
    ultimately have "b \<notin> set (addrs (Node l a r))" unfolding s addrs_plug by auto
    then show "map_option value' (cells h' b) = map_option value' (cells h b)" using frame by simp
  qed
  let ?xs = "map (entry h) (internals_before d) @ entries h l"
  let ?ys = "entries h r @ map (entry h) (internals_after d)"
  have es: "entries h s = ?xs @ entry h a # ?ys"
    unfolding s by (simp add: entries_def internals_plug)
  have "map (entry h') (internals_before d) = map (entry h) (internals_before d)"
    "map (entry h') (internals_after d) = map (entry h) (internals_after d)"
    using internals_hole_subset[of d] by (auto intro!: out)
  then have es': "entries h' ?s' = ?xs @ ?ys"
    using ent by (simp add: entries_def internals_plug)
  have sorted': "sorted_wrt (<) (keys h' ?s')"
    using sorted unfolding keys_def es es' by (auto simp: sorted_wrt_append)
  have sz': "sz t - 1 = length (internals ?s')"
  proof -
    have "length (entries h s) = Suc (length (entries h' ?s'))" unfolding es es' by simp
    then show ?thesis using sz by simp
  qed
  have "tree_inv h' (t\<lparr>sz := sz t - 1\<rparr>) ?s' e"
    unfolding tree_inv_plug using wf' dist' bound' sorted' sz' W' by simp
  then show ?thesis using e' fr es es' by blast
qed

lemma remove_key_sorted:
  assumes "sorted_wrt (<) (map fst (xs @ (k::'k::linorder, v) # ys))"
  shows "filter (\<lambda>e. fst e \<noteq> k) (xs @ (k, v) # ys) = xs @ ys"
proof -
  have "\<forall>e\<in>set xs. fst e < k" "\<forall>e\<in>set ys. k < fst e"
    using assms by (auto simp: sorted_wrt_append)
  then have "\<forall>e\<in>set xs. fst e \<noteq> k" "\<forall>e\<in>set ys. fst e \<noteq> k"
    by auto
  then show ?thesis by (simp add: filter_id_conv)
qed

lemma descend_suffix: "descend h k c s = (c', s') \<Longrightarrow> \<exists>d. c' = d @ c"
proof (induction s arbitrary: c)
  case (Leaf x)
  then show ?case by simp
next
  case (Node l a r)
  consider "fst (entry h a) = k" | "fst (entry h a) \<noteq> k" "k < fst (entry h a)"
    | "fst (entry h a) \<noteq> k" "\<not> k < fst (entry h a)" by blast
  then show ?case
  proof cases
    case 1
    then show ?thesis using Node.prems by simp
  next
    case 2
    then have "descend h k (L a r # c) l = (c', s')" using Node.prems by simp
    from Node.IH(1)[OF this] obtain d where "c' = d @ L a r # c" by blast
    then have "c' = (d @ [L a r]) @ c" by simp
    then show ?thesis by blast
  next
    case 3
    then have "descend h k (R l a # c) r = (c', s')" using Node.prems by simp
    from Node.IH(2)[OF this] obtain d where "c' = d @ R l a # c" by blast
    then have "c' = (d @ [R l a]) @ c" by simp
    then show ?thesis by blast
  qed
qed

lemma erase_key_inv:
  assumes inv: "tree_inv h t s e"
  shows "\<exists>h' t' n s'. erase_key h t k = Some (h', t', n) \<and>
     n = (if k \<in> set (keys h s) then 1 else 0) \<and>
     (k \<notin> set (keys h s) \<longrightarrow> h' = h \<and> t' = t) \<and>
     tree_inv h' t' s' e \<and> root t' = root t \<and> sz t' = sz t - n \<and> fresh h' = fresh h \<and>
     entries h' s' = filter (\<lambda>e. fst e \<noteq> k) (entries h s)"
proof -
  obtain c' s' where d: "descend h k [L (root t) (Leaf e)] s = (c', s')" by force
  from inv have wf: "wft h 0 (plug [L (root t) (Leaf e)] s)" and so: "sorted_wrt (<) (keys h s)"
    by (simp_all add: tree_inv_def)
  from descend_wf(1)[OF wf d] have w: "wft h (hole_parent 0 c') s'" .
  note res = descend_result[OF so, of k "[L (root t) (Leaf e)]", unfolded d snd_conv]
  note f = finder_inv[OF inv, of k, unfolded d snd_conv]
  show ?thesis
  proof (cases s')
    case (Leaf x)
    from w[unfolded Leaf] obtain n where n: "deref h x = Some n" "is_external n" by (rule wf_LeafD)
    have nk: "k \<notin> set (keys h s)" using res Leaf by simp
    then have "filter (\<lambda>e. fst e \<noteq> k) (entries h s) = entries h s"
      by (auto simp: keys_def filter_id_conv)
    moreover have "erase_key h t k = Some (h, t, 0)"
      using f n Leaf by (simp add: erase_key_def is_internal_def)
    ultimately show ?thesis using nk inv by auto
  next
    case (Node l a r)
    from w[unfolded Node] obtain n where n: "deref h a = Some n" "is_internal n" by (rule wf_NodeD)
    from res Node have a: "a \<in> set (internals s)" "fst (entry h a) = k" by simp_all
    then have ik: "k \<in> set (keys h s)" by (auto simp: keys_set)
    from eraser_inv[OF inv a(1)] obtain h' r s'' xs ys where
      e: "eraser h t a = Some (h', t\<lparr>sz := sz t - 1\<rparr>, r)"
      and inv': "tree_inv h' (t\<lparr>sz := sz t - 1\<rparr>) s'' e" and fr: "fresh h' = fresh h"
      and es: "entries h s = xs @ entry h a # ys" "entries h' s'' = xs @ ys"
      by blast
    have "erase_key h t k = Some (h', t\<lparr>sz := sz t - 1\<rparr>, 1)"
      using f n Node e by (simp add: erase_key_def)
    moreover have "entries h' s'' = filter (\<lambda>e. fst e \<noteq> k) (entries h s)"
    proof -
      have "sorted_wrt (<) (map fst (xs @ (k, snd (entry h a)) # ys))"
        using so a(2)[symmetric] unfolding keys_def es by simp
      from remove_key_sorted[OF this] show ?thesis using es a(2)[symmetric] by simp
    qed
    ultimately show ?thesis using ik inv' fr by auto
  qed
qed

section \<open>Construction and clearing\<close>



section \<open>Copying\<close>












lemma set_values_fresh [simp]: "fresh (set_values h xs w) = fresh h"
  by (induction xs arbitrary: h) auto










section \<open>The example state satisfies the invariant\<close>

lemma ex_state_built:
  "map_option (\<lambda>(h, t). (t, fresh h, map (cells h) [0..<10]))
     (build [Insert (2, ''b''), Insert (1, ''a''), Insert (3, ''c'')]) =
   Some (ex_tree, fresh ex_heap, map (cells ex_heap) [0..<10])"
  by code_simp

lemma ex_tree_inv: "tree_inv ex_heap ex_tree ex_shape 3"
  by (simp add: tree_inv_def ex_heap_def ex_tree_def ex_shape_def ex_node_def deref_def
      keys_def entries_def entry_def)

lemma ex_avl_inv: "avl_inv ex_heap ex_tree"
  unfolding avl_inv_def using ex_tree_inv by blast

lemma ex_traverse: "traverse ex_heap ex_tree = Some [(1, ''a''), (2, ''b''), (3, ''c'')]"
  by code_simp



section \<open>Properties of every tree\<close>





text \<open>
  Claim C7 (\<^verbatim>\<open>erase(key)\<close> returns the number of elements removed, and leaves the tree
  unchanged when the key is absent). In every state that satisfies the representation
  invariant \<^verbatim>\<open>erase(k)\<close> returns: 1 if \<open>k\<close> is among the keys the iteration visits, and then
  exactly the entry of \<open>k\<close> is gone and \<^verbatim>\<open>size()\<close> is one less; 0 otherwise, and then the heap
  and the \<^verbatim>\<open>avl\<close> object are unchanged.
\<close>

theorem erase_key_returns_number_removed:
  assumes "avl_inv h t"
  shows "\<exists>h' t' n es. erase_key h t k = Some (h', t', n) \<and> traverse h t = Some es \<and>
    (if k \<in> fst ` set es then n = 1 else n = 0 \<and> h' = h \<and> t' = t) \<and>
    avl_inv h' t' \<and> traverse h' t' = Some (filter (\<lambda>e. fst e \<noteq> k) es) \<and>
    size' t' = size' t - n"
proof -
  from assms obtain s e where inv: "tree_inv h t s e" by (auto simp: avl_inv_def)
  from erase_key_inv[OF inv, of k] obtain h' t' n s' where
    1: "erase_key h t k = Some (h', t', n)" "n = (if k \<in> set (keys h s) then 1 else 0)"
       "k \<notin> set (keys h s) \<longrightarrow> h' = h \<and> t' = t" "tree_inv h' t' s' e" "sz t' = sz t - n"
       "entries h' s' = filter (\<lambda>e. fst e \<noteq> k) (entries h s)"
    by blast
  have "traverse h t = Some (entries h s)" by (rule traverse_inv[OF inv])
  moreover have "traverse h' t' = Some (entries h' s')" by (rule traverse_inv[OF 1(4)])
  moreover have "set (keys h s) = fst ` set (entries h s)" by (simp add: keys_def)
  ultimately show ?thesis using 1 by (auto simp: avl_inv_def size'_def)
qed

theorem erase_key_returns_number_removed_witness:
  "avl_inv ex_heap ex_tree \<and>
   traverse ex_heap ex_tree = Some [(1, ''a''), (2, ''b''), (3, ''c'')] \<and>
   erase_key ex_heap ex_tree 7 = Some (ex_heap, ex_tree, 0) \<and>
   (\<exists>h' t'. erase_key ex_heap ex_tree 2 = Some (h', t', 1) \<and> avl_inv h' t' \<and>
      traverse h' t' = Some [(1, ''a''), (3, ''c'')] \<and> size' t' = 2)"
proof -
  have s: "size' ex_tree = 3" by (simp add: size'_def ex_tree_def)
  show ?thesis
    using erase_key_returns_number_removed[OF ex_avl_inv, of 7]
      erase_key_returns_number_removed[OF ex_avl_inv, of 2] ex_avl_inv ex_traverse s
    by auto
qed



section \<open>What the operations do on concrete trees\<close>

text \<open>
  Claim C1 (balance after every insert and erase; erase rebalances). \<^verbatim>\<open>eraser\<close> returns
  straight after \<^verbatim>\<open>remove_above_external\<close> and never calls \<^verbatim>\<open>rebalance\<close>. After inserting
  2, 1, 3, 4 and erasing 1, the left child of the data root is external while its right
  child has an internal right child: the subtree heights are 0 and 2, the stored heights
  are 0 and 2, and the source's own \<^verbatim>\<open>is_balanced\<close> rejects the data root.
\<close>

theorem erase_leaves_tree_unbalanced:
  "(do {
      (h, t) \<leftarrow> build [Insert (2, ''b''), Insert (1, ''a''), Insert (3, ''c''), Insert (4, ''d''),
                       Erase (1::int)];
      d \<leftarrow> get_left h (root t);
      l \<leftarrow> get_left h d;
      ln \<leftarrow> deref h l;
      r \<leftarrow> get_right h d;
      rr \<leftarrow> get_right h r;
      rrn \<leftarrow> deref h rr;
      Some (traverse h t, is_external ln, is_internal rrn,
            get_height h l, get_height h r, is_balanced h d)
    }) =
   Some (Some [(2, ''b''), (3, ''c''), (4, ''d'')], True, True, Some 0, Some 2, Some False)"
  by code_simp

text \<open>
  Claim C2 (every stored height is correct after every public operation). After inserting
  1 and 2 and erasing 2, both children of the data root are external with height 0, and
  the data root still stores the height 2 it had before the erase. The same defect as in
  C1: \<^verbatim>\<open>eraser\<close> updates no height. A copy-constructed tree has no stored height at all at
  its data root: the copy constructor of \<^verbatim>\<open>node\<close> leaves \<^verbatim>\<open>height\<close> uninitialised.
\<close>

theorem erase_and_copy_leave_wrong_heights:
  "(do {
      (h, t) \<leftarrow> build [Insert (1, ''a''), Insert (2, ''b''), Erase (2::int)];
      d \<leftarrow> get_left h (root t);
      l \<leftarrow> get_left h d;
      ln \<leftarrow> deref h l;
      r \<leftarrow> get_right h d;
      rn \<leftarrow> deref h r;
      (h', c) \<leftarrow> avl_copy h t;
      d' \<leftarrow> get_left h' (root c);
      dn' \<leftarrow> deref h' d';
      Some (is_external ln, is_external rn, get_height h l, get_height h r, get_height h d,
            is_internal dn', height dn')
    }) =
   Some (True, True, Some 0, Some 0, Some 2, True, None)"
  by code_simp

text \<open>
  Claim C3 (erase returns the in-order successor, or the end sentinel). \<^verbatim>\<open>eraser\<close> returns
  what \<^verbatim>\<open>remove_above_external\<close> returns, the promoted sibling. On the tree of the test
  \<^verbatim>\<open>test_erase_iterator\<close> (keys 3, 1, 2, 5, 4), \<^verbatim>\<open>erase(begin())\<close> returns an external node,
  not the iterator \<open>j\<close> to key 2 that the test expects. Erasing the only element of a tree
  returns an external node as well, not \<^verbatim>\<open>end()\<close>.
\<close>

theorem erase_returns_promoted_sibling:
  "(do {
      (h, t) \<leftarrow> build [Insert (3, ''l''), Insert (1, ''H''), Insert (2, ''e''), Insert (5, ''o''),
                       Insert (4::int, ''l'')];
      b \<leftarrow> begin' h t;
      j \<leftarrow> inorder_next h b;
      r \<leftarrow> erase_pos h t b;
      (h1, t1, i) \<leftarrow> (case r of Inl _ \<Rightarrow> None | Inr x \<Rightarrow> Some x);
      n \<leftarrow> deref h1 i;
      (h2, t2) \<leftarrow> build [Insert (7::int, ''x'')];
      b2 \<leftarrow> begin' h2 t2;
      r2 \<leftarrow> erase_pos h2 t2 b2;
      (h3, t3, i2) \<leftarrow> (case r2 of Inl _ \<Rightarrow> None | Inr x \<Rightarrow> Some x);
      n2 \<leftarrow> deref h3 i2;
      Some (get_value h b, get_value h j, i = j, is_external n, traverse h1 t1,
            i2 = end' t3, is_external n2, traverse h3 t3)
    }) =
   Some (Some (1, ''H''), Some (2, ''e''), False, True,
         Some [(2, ''e''), (3, ''l''), (4, ''l''), (5, ''o'')],
         False, True, Some [])"
  by code_simp

text \<open>
  Claim C4 (insert of an absent key stores it, for every tree). \<^verbatim>\<open>rebalance\<close> trusts the
  stored heights, and \<^verbatim>\<open>eraser\<close> leaves them stale (the defect of C1 and C2). After the
  inserts and erases below the tree holds the keys 3 and 6, and the node of key 6 still
  stores height 3 above two external children. Inserting the absent key 1 then makes
  \<^verbatim>\<open>tall_grandchild\<close> select an external node, and \<^verbatim>\<open>rebalance\<close> calls \<^verbatim>\<open>set_height\<close> on it,
  which dereferences its null \<^verbatim>\<open>left\<close>: the call has no defined result.
\<close>

theorem insert_after_erase_undefined:
  "(do {
      (h, t) \<leftarrow> build [Insert (3, ''''), Insert (2, ''''), Insert (6, ''''), Insert (1, ''''),
                       Insert (5, ''''), Insert (7, ''''), Insert (8::int, ''''),
                       Erase 1, Erase 2, Erase 5, Erase 7, Erase 8];
      Some (traverse h t, count' h t 1, insert' h t (1, ''x'') = None)
    }) =
   Some (Some [(3, ''''), (6, '''')], Some 0, True)"
  by code_simp

text \<open>
  Claim C6 (\<^verbatim>\<open>at\<close> returns a reference to the value stored in the tree). \<^verbatim>\<open>at\<close> copies the
  entry it found into a new node and returns a reference into that node. Reading through
  it gives the stored value, but the node is not the tree's (\<open>r \<noteq> m\<close>), and writing
  through the reference leaves the tree's entry for the key as it was.
\<close>

theorem at_returns_reference_to_a_copy:
  "(do {
      (h, t) \<leftarrow> build [Insert (3, ''l''), Insert (5::int, ''o'')];
      m \<leftarrow> find' h t 5;
      x \<leftarrow> at h t 5;
      (h1, r) \<leftarrow> (case x of Inl _ \<Rightarrow> None | Inr y \<Rightarrow> Some y);
      v \<leftarrow> read_ref h1 r;
      h2 \<leftarrow> write_ref h1 r ''w'';
      m2 \<leftarrow> find' h2 t 5;
      Some (m \<noteq> end' t, r = m, v, m2 = m, read_ref h2 m2, traverse h2 t,
            map_option isl (at h t 7))
    }) =
   Some (True, False, ''o'', True, Some ''o'', Some [(3, ''l''), (5, ''o'')], Some True)"
  by code_simp

text \<open>
  Claim C10 (\<open>t = t\<close> leaves \<open>t\<close> unchanged). \<^verbatim>\<open>operator=\<close> does nothing when both operands
  are the same object: the heap and every tree object stay as they are, so no node is
  destroyed.
\<close>

theorem self_assignment_identity:
  "avl_assign h S this this = Some (h, S)"
  by (simp add: avl_assign_def)


end
